theory Spec2Isabelle
  imports Complex_Main "HOL-Library.Word" "HOL-Library.Multiset"
begin

section \<open>Values, errors and the database collaborator\<close>

text \<open>
  A thrown JavaScript error: its \<open>name\<close> and its optional numeric \<open>code\<close>, the two
  properties that \<open>isQuotaError\<close> inspects, and its \<open>message\<close>.
\<close>

datatype jserror = JsError (err_name: string) (err_code: "int option") (err_message: string)

text \<open>
  Cell values as the decoding library hands them out. \<open>JNum\<close> holds the integral numbers
  from \<open>-2^53\<close> to \<open>2^53 - 1\<close>, a 54-bit word read as a signed value: each of them is a
  double, and \<open>String\<close> prints each of them in plain decimal. \<open>JNaN\<close> is the one number
  that is not equal to itself, and \<open>JObj\<close> an object or a function (a date, a buffer, an
  inherited method) given by its identity and by the text \<open>String\<close> makes of it. The
  other doubles are outside the model. A string is the list of its code units.
\<close>

type_synonym safe_int = "54 word"

datatype jsval =
  JNull | JUndefined | JBool bool | JNum safe_int | JNaN | JStr string | JObj nat string

text \<open>
  A row is an object: its own keys in the order in which \<open>Object.keys\<close> lists them, each
  with a value.
\<close>

type_synonym row = "(string \<times> jsval) list"

text \<open>
  Modelled from the spec: the decoding library is not among the sources, so its handles
  are parameters of the model, with the interface the specification lists. A table
  handle has \<open>rowCount\<close> (a non-negative integer), \<open>columnCount\<close>, \<open>getColumnNames()\<close> and
  \<open>getData({rowOffset, rowLimit})\<close>, each option absent or present; a database handle has
  \<open>getTableNames()\<close> and \<open>getTable(name)\<close>. Every access that can throw returns a sum.
\<close>

record table =
  rowCount :: "jserror + nat"
  columnCount :: nat
  getColumnNames :: "jserror + string list"
  getData :: "nat option \<Rightarrow> nat option \<Rightarrow> jserror + row list"

record mdbreader =
  getTableNames :: "jserror + string list"
  getTable :: "string \<Rightarrow> jserror + table"

text \<open>One line of the catalog, \<open>{ name, rowCount }\<close>.\<close>

record entry =
  entry_name :: string
  entry_rowCount :: int

text \<open>
  Modelled from the spec: what \<open>getData\<close> of the decoding library returns on a table
  holding \<open>rows\<close> when it honours its options; \<open>rowOffset\<close> defaults to 0 and \<open>rowLimit\<close>
  to no limit.
\<close>

definition slice_rows :: "'a list \<Rightarrow> nat option \<Rightarrow> nat option \<Rightarrow> 'a list" where
  "slice_rows rows off lmt =
     (let rest = drop (case off of None \<Rightarrow> 0 | Some k \<Rightarrow> k) rows
      in case lmt of None \<Rightarrow> rest | Some l \<Rightarrow> take l rest)"

text \<open>
  A handle that reports its row count accurately and answers every fetch with the rows
  the offset and the limit select, without failing.
\<close>

definition honors :: "table \<Rightarrow> row list \<Rightarrow> bool" where
  "honors t rows \<longleftrightarrow>
     rowCount t = Inr (length rows) \<and>
     (\<forall>off lmt. getData t off lmt = Inr (slice_rows rows off lmt))"

text \<open>The well-behaved handle over a given list of rows.\<close>

definition table_of :: "string list \<Rightarrow> row list \<Rightarrow> table" where
  "table_of cols rows =
     \<lparr> rowCount = Inr (length rows), columnCount = length cols,
       getColumnNames = Inr cols,
       getData = (\<lambda>off lmt. Inr (slice_rows rows off lmt)) \<rparr>"

section \<open>Table catalog builder\<close>

text \<open>
  \<open>names.map(async (name) => { try { ... } catch (e) { ... } })\<close>: the callbacks hold no
  \<open>await\<close>, so they run one after the other in enumeration order, each one either
  caching the handle and returning its count or returning a zero count.
\<close>

fun buildEntries ::
  "mdbreader \<Rightarrow> string list \<Rightarrow> (string \<rightharpoonup> table) \<Rightarrow> entry list \<times> (string \<rightharpoonup> table)" where
  "buildEntries r [] tm = ([], tm)"
| "buildEntries r (n # ns) tm =
     (case getTable r n of
        Inl e \<Rightarrow>
          (let (es, tm') = buildEntries r ns tm
           in (\<lparr> entry_name = n, entry_rowCount = 0 \<rparr> # es, tm'))
      | Inr t \<Rightarrow>
          (case rowCount t of
             Inl e \<Rightarrow>
               (let (es, tm') = buildEntries r ns tm
                in (\<lparr> entry_name = n, entry_rowCount = 0 \<rparr> # es, tm'))
           | Inr rc \<Rightarrow>
               (let (es, tm') = buildEntries r ns (tm(n \<mapsto> t))
                in (\<lparr> entry_name = n, entry_rowCount = int rc \<rparr> # es, tm'))))"

section \<open>Row sampler\<close>

definition blocks :: nat where
  "blocks = 20"

text \<open>\<open>Math.ceil(sampleSize / blocks)\<close> on non-negative integers.\<close>

definition blockSize :: "nat \<Rightarrow> nat" where
  "blockSize sampleSize = (sampleSize + (blocks - 1)) div blocks"

text \<open>
  The \<open>for\<close> loop of \<open>sampleRowsForTable\<close> from block \<open>i\<close> on, with the rows gathered so
  far: it leaves as soon as the sample is full, and a block whose fetch throws is
  skipped.
\<close>

function sampleLoop :: "table \<Rightarrow> nat \<Rightarrow> nat \<Rightarrow> nat \<Rightarrow> row list \<Rightarrow> row list" where
  "sampleLoop t rc sampleSize i rows =
     (if i < blocks then
        (if length rows \<ge> sampleSize then rows
         else
           (case getData t (Some ((i * rc) div blocks)) (Some (blockSize sampleSize)) of
              Inr chunk \<Rightarrow> sampleLoop t rc sampleSize (i + 1) (rows @ chunk)
            | Inl e \<Rightarrow> sampleLoop t rc sampleSize (i + 1) rows))
      else rows)"
  by pat_completeness auto
termination
  by (relation "measure (\<lambda>(t, rc, sampleSize, i, rows). blocks - i)") auto

definition sampleRowsForTable :: "table \<Rightarrow> nat \<Rightarrow> jserror + row list" where
  "sampleRowsForTable t sampleSize =
     (case rowCount t of
        Inl e \<Rightarrow> Inl e
      | Inr rc \<Rightarrow>
          if rc \<le> sampleSize then getData t None None
          else Inr (take sampleSize (sampleLoop t rc sampleSize 0 [])))"

section \<open>Column width estimator\<close>

text \<open>\<open>String(v)\<close> on the values of the model.\<close>

definition digit_char :: "nat \<Rightarrow> char" where
  "digit_char d = char_of (48 + d)"

function digits :: "nat \<Rightarrow> string" where
  "digits n = (if n < 10 then [digit_char n] else digits (n div 10) @ [digit_char (n mod 10)])"
  by pat_completeness auto
termination
  by (relation "measure (\<lambda>n. n)") auto

fun String_js :: "jsval \<Rightarrow> string" where
  "String_js JNull = ''null''"
| "String_js JUndefined = ''undefined''"
| "String_js (JBool b) = (if b then ''true'' else ''false'')"
| "String_js (JNum w) =
     (let i = sint w in if i < 0 then CHR ''-'' # digits (nat (- i)) else digits (nat i))"
| "String_js JNaN = ''NaN''"
| "String_js (JStr s) = s"
| "String_js (JObj ref s) = s"

text \<open>The value of an own key of a row, \<open>undefined\<close> when the row has no such own key.\<close>

definition own_value :: "row \<Rightarrow> string \<Rightarrow> jsval" where
  "own_value r c = (case map_of r c of None \<Rightarrow> JUndefined | Some v \<Rightarrow> v)"

text \<open>
  \<open>row[name]\<close> on a plain object: the own property when there is one, else what the
  prototype chain gives, else \<open>undefined\<close>. \<open>proto\<close> holds what the chain of a plain object
  gives: the methods inherited from \<open>Object.prototype\<close> and, under \<open>__proto__\<close>, the
  prototype itself. Which names and which texts these are the engine decides, so
  \<open>proto\<close> is a parameter of the model.
\<close>

definition row_get :: "(string \<rightharpoonup> jsval) \<Rightarrow> row \<Rightarrow> string \<Rightarrow> jsval" where
  "row_get proto r c =
     (case map_of r c of
        Some v \<Rightarrow> v
      | None \<Rightarrow> (case proto c of Some v \<Rightarrow> v | None \<Rightarrow> JUndefined))"

text \<open>
  The length that the inner loop pushes for one cell:
  \<open>let v = row[name]; if (v === undefined || v === null) v = ''; String(v).length\<close>.
\<close>

definition cell_length :: "(string \<rightharpoonup> jsval) \<Rightarrow> row \<Rightarrow> string \<Rightarrow> nat" where
  "cell_length proto r c =
     (let v = row_get proto r c;
          v' = (if v = JUndefined \<or> v = JNull then JStr [] else v)
      in length (String_js v'))"

text \<open>
  \<open>lengths\<close> is a plain object from column names to arrays.
  \<open>for (const name of columnNames) lengths[name] = []\<close>. Storing an array under a name
  makes an own property, and under the name \<open>__proto__\<close> it makes the array the prototype
  of \<open>lengths\<close>, which a later \<open>lengths['__proto__']\<close> reads back: for every name the
  array stored last is the one read, as in a map.
\<close>

fun init_lengths :: "string list \<Rightarrow> (string \<rightharpoonup> nat list) \<Rightarrow> (string \<rightharpoonup> nat list)" where
  "init_lengths [] lengths = lengths"
| "init_lengths (c # cs) lengths = init_lengths cs (lengths(c \<mapsto> []))"

text \<open>
  The inner loop over the column names for one row; \<open>lengths[name].push(...)\<close> on a
  missing array is a \<open>TypeError\<close>.
\<close>

definition TypeError :: jserror where
  "TypeError = JsError ''TypeError'' None []"

fun push_row ::
  "(string \<rightharpoonup> jsval) \<Rightarrow> row \<Rightarrow> string list \<Rightarrow> (string \<rightharpoonup> nat list)
   \<Rightarrow> jserror + (string \<rightharpoonup> nat list)" where
  "push_row proto r [] lengths = Inr lengths"
| "push_row proto r (c # cs) lengths =
     (case lengths c of
        None \<Rightarrow> Inl TypeError
      | Some arr \<Rightarrow> push_row proto r cs (lengths(c \<mapsto> arr @ [cell_length proto r c])))"

text \<open>The outer loop over the sample rows.\<close>

fun push_rows ::
  "(string \<rightharpoonup> jsval) \<Rightarrow> row list \<Rightarrow> string list \<Rightarrow> (string \<rightharpoonup> nat list)
   \<Rightarrow> jserror + (string \<rightharpoonup> nat list)" where
  "push_rows proto [] cs lengths = Inr lengths"
| "push_rows proto (r # rs) cs lengths =
     (case push_row proto r cs lengths of
        Inl e \<Rightarrow> Inl e
      | Inr lengths' \<Rightarrow> push_rows proto rs cs lengths')"

text \<open>
  \<open>percentile75\<close>: 0 on an empty array, else the element of the ascending sort at
  \<open>Math.floor(sorted.length * 0.75)\<close>, which is \<open>3 * length div 4\<close> and lies inside the
  array.
\<close>

definition percentile75 :: "nat list \<Rightarrow> nat" where
  "percentile75 arr =
     (if length arr = 0 then 0
      else (let sorted = sort arr; index = (length sorted * 3) div 4 in sorted ! index))"

definition charWidth :: nat where "charWidth = 12"
definition cellPadding :: nat where "cellPadding = 24"
definition minWidth :: nat where "minWidth = 60"
definition maxWidth :: nat where "maxWidth = 800"

text \<open>
  The last loop: \<open>Math.ceil(len75 * charWidth) + cellPadding\<close>, clamped. The product of
  two integers is an integer, which \<open>Math.ceil\<close> returns unchanged. \<open>widths\<close> is a plain
  object too: \<open>widths[name] = w\<close> makes an own property, except under the name
  \<open>__proto__\<close>, where the setter of the prototype drops a number and stores nothing.
\<close>

fun set_widths ::
  "string list \<Rightarrow> (string \<rightharpoonup> nat list) \<Rightarrow> (string \<rightharpoonup> nat) \<Rightarrow> jserror + (string \<rightharpoonup> nat)" where
  "set_widths [] lengths widths = Inr widths"
| "set_widths (c # cs) lengths widths =
     (case lengths c of
        None \<Rightarrow> Inl TypeError
      | Some arr \<Rightarrow>
          (let len75 = percentile75 arr;
               w = len75 * charWidth + cellPadding
           in set_widths cs lengths
                (if c = ''__proto__'' then widths
                 else widths(c \<mapsto> min (max w minWidth) maxWidth))))"

definition computeColumnWidths ::
  "(string \<rightharpoonup> jsval) \<Rightarrow> string list \<Rightarrow> row list \<Rightarrow> jserror + (string \<rightharpoonup> nat)" where
  "computeColumnWidths proto columnNames sampleRows =
     (case push_rows proto sampleRows columnNames (init_lengths columnNames Map.empty) of
        Inl e \<Rightarrow> Inl e
      | Inr lengths \<Rightarrow> set_widths columnNames lengths Map.empty)"

text \<open>
  The estimator as the specification words it: per column the lengths of the sampled
  cells, a cell being what \<open>row[name]\<close> gives, the element at index
  \<open>floor(0.75 * count)\<close> of their ascending sort (0 for an empty sample), times the
  per-character estimate, rounded up, plus the padding, clamped between the two bounds.
\<close>

definition spec_percentile :: "nat list \<Rightarrow> nat" where
  "spec_percentile ls =
     (if ls = [] then 0 else sort ls ! nat \<lfloor>0.75 * real (length ls)\<rfloor>)"

definition spec_cell_length :: "(string \<rightharpoonup> jsval) \<Rightarrow> row \<Rightarrow> string \<Rightarrow> nat" where
  "spec_cell_length proto r c =
     (case row_get proto r c of JNull \<Rightarrow> 0 | JUndefined \<Rightarrow> 0 | v \<Rightarrow> length (String_js v))"

definition spec_width :: "(string \<rightharpoonup> jsval) \<Rightarrow> string \<Rightarrow> row list \<Rightarrow> nat" where
  "spec_width proto c sampleRows =
     (let ls = map (\<lambda>r. spec_cell_length proto r c) sampleRows;
          w = nat \<lceil>real (spec_percentile ls) * real charWidth\<rceil> + cellPadding
      in min (max w minWidth) maxWidth)"

section \<open>Cross-table value matcher and view controller (the variant with value following)\<close>

text \<open>
  The strict equality \<open>===\<close>: the two operands have the same type and the same value;
  \<open>NaN\<close> equals nothing, and two objects are equal when they are the same object.
\<close>

fun strict_eq :: "jsval \<Rightarrow> jsval \<Rightarrow> bool" where
  "strict_eq JNull JNull = True"
| "strict_eq JUndefined JUndefined = True"
| "strict_eq (JBool a) (JBool b) = (a = b)"
| "strict_eq (JNum a) (JNum b) = (a = b)"
| "strict_eq (JStr a) (JStr b) = (a = b)"
| "strict_eq (JObj a s) (JObj b s') = (a = b)"
| "strict_eq _ _ = False"

text \<open>\<open>Object.keys\<close> and \<open>Object.values\<close>: an object holds each key once.\<close>

definition Object_keys :: "row \<Rightarrow> string list" where
  "Object_keys r = remdups (map fst r)"

definition Object_values :: "row \<Rightarrow> jsval list" where
  "Object_values r = map (own_value r) (Object_keys r)"

text \<open>
  The state of this variant: the globals \<open>reader\<close>, \<open>tables\<close>, \<open>tableMap\<close> and
  \<open>relationships\<close>, the texts of the status line and of the two table labels, what was
  last handed to \<open>renderTablesGrid\<close> and \<open>renderRowsGrid\<close>, the name selected in the
  table list, the row classes of the list, the value whose rows the rows grid selects
  after a followed click, the fast store, and the names of the tables whose rows a
  click scan has fetched.
\<close>

record vstate =
  v_reader :: "mdbreader option"
  v_tables :: "entry list"
  v_tableMap :: "string \<rightharpoonup> table"
  v_relationships :: "row list"
  v_status :: string
  v_currentTable :: string
  v_tableInfo :: "(nat \<times> nat) option"
  v_tablesGrid :: "entry list option"
  v_rowsGrid :: "(string \<times> string list \<times> row list) option"
  v_listSelected :: "string option"
  v_rowClass :: "string \<rightharpoonup> string"
  v_selectValue :: "jsval option"
  v_localStorage :: "string \<rightharpoonup> string"
  v_scanned :: "string list"

text \<open>
  \<open>highlightTableInList\<close>; \<open>api\<close> tells whether \<open>tablesGridOptions.api\<close> is there, which
  the grid library decides.
\<close>

definition highlightTableInList :: "bool \<Rightarrow> vstate \<Rightarrow> string \<Rightarrow> vstate" where
  "highlightTableInList api st n =
     (if \<not> api then st else st\<lparr> v_listSelected := Some n \<rparr>)"

text \<open>
  \<open>selectTable\<close>: the display fetch asks for at most 5000 rows. The result is the state
  the function leaves and the error it threw, if any: a throwing accessor leaves by the
  exception, after the writes made before it.
\<close>

definition selectTable :: "bool \<Rightarrow> vstate \<Rightarrow> string \<Rightarrow> vstate \<times> jserror option" where
  "selectTable api st n =
     (case v_tableMap st n of
        None \<Rightarrow> (st, None)
      | Some tbl \<Rightarrow>
          (let st1 = st\<lparr> v_currentTable := n \<rparr> in
           case rowCount tbl of
             Inl e \<Rightarrow> (st1, Some e)
           | Inr rc \<Rightarrow>
               (let st2 = st1\<lparr> v_tableInfo := Some (columnCount tbl, rc) \<rparr> in
                case getData tbl None (Some 5000) of
                  Inl e \<Rightarrow> (st2, Some e)
                | Inr rows \<Rightarrow>
                    (case getColumnNames tbl of
                       Inl e \<Rightarrow> (st2, Some e)
                     | Inr cols \<Rightarrow>
                         (highlightTableInList api
                            (st2\<lparr> v_rowsGrid := Some (n, cols, rows) \<rparr>) n, None)))))"

text \<open>
  The two inner loops of \<open>followValue\<close>: the cells of one row in key order, and the rows
  in order; the answer is whether some cell is \<open>===\<close> to the value. The keys come from
  \<open>Object.keys(row)\<close>, so \<open>row[col]\<close> reads an own property.
\<close>

fun scan_cols :: "row \<Rightarrow> string list \<Rightarrow> jsval \<Rightarrow> bool" where
  "scan_cols r [] v = False"
| "scan_cols r (c # cs) v = (if strict_eq (own_value r c) v then True else scan_cols r cs v)"

fun scan_rows :: "row list \<Rightarrow> jsval \<Rightarrow> bool" where
  "scan_rows [] v = False"
| "scan_rows (r # rs) v = (if scan_cols r (Object_keys r) v then True else scan_rows rs v)"

text \<open>
  \<open>followValue\<close>, the loop over \<open>tables\<close>. The body sits in a \<open>try\<close> whose \<open>catch\<close> ignores
  the error, so a missing handle, a failing fetch, and a \<open>selectTable\<close> that throws after
  a hit all go on with the next table. On a hit the function navigates, arms a timer and
  returns; the result names the table it navigated to.
\<close>

fun followLoop :: "bool \<Rightarrow> vstate \<Rightarrow> entry list \<Rightarrow> string \<Rightarrow> jsval \<Rightarrow> vstate \<times> string option" where
  "followLoop api st [] originTable v =
     (st\<lparr> v_status := ''No matching value found in other tables'' \<rparr>, None)"
| "followLoop api st (t # ts) originTable v =
     (if entry_name t = originTable then followLoop api st ts originTable v
      else
        (case v_tableMap st (entry_name t) of
           None \<Rightarrow> followLoop api st ts originTable v
         | Some tbl \<Rightarrow>
             (let st1 = st\<lparr> v_scanned := v_scanned st @ [entry_name t] \<rparr> in
              case getData tbl None (Some 10000) of
                Inl e \<Rightarrow> followLoop api st1 ts originTable v
              | Inr data \<Rightarrow>
                  if scan_rows data v then
                    (case selectTable api st1 (entry_name t) of
                       (st2, Some e) \<Rightarrow> followLoop api st2 ts originTable v
                     | (st2, None) \<Rightarrow> (st2, Some (entry_name t)))
                  else followLoop api st1 ts originTable v)))"

definition followValue ::
  "bool \<Rightarrow> vstate \<Rightarrow> string \<Rightarrow> string \<Rightarrow> jsval \<Rightarrow> vstate \<times> string option" where
  "followValue api st originTable originCol v =
     followLoop api (st\<lparr> v_status := ''Searching referenced tables...'', v_scanned := [] \<rparr>)
       (v_tables st) originTable v"

text \<open>
  The timer armed on a hit, 50 ms later: when the rows grid exists it selects the rows
  holding the value and reports the table.
\<close>

definition followTimer :: "vstate \<Rightarrow> string \<Rightarrow> jsval \<Rightarrow> vstate" where
  "followTimer st n v =
     (case v_rowsGrid st of
        None \<Rightarrow> st
      | Some g \<Rightarrow> st\<lparr> v_selectValue := Some v, v_status := ''Found match in '' @ n \<rparr>)"

text \<open>The two cell handlers of the rows grid: an empty cell does nothing.\<close>

definition onCellClicked ::
  "bool \<Rightarrow> vstate \<Rightarrow> string \<Rightarrow> string \<Rightarrow> jsval \<Rightarrow> vstate \<times> string option" where
  "onCellClicked api st tableName fld v =
     (if v = JNull \<or> v = JUndefined then (st, None)
      else followValue api st tableName fld v)"

text \<open>
  \<open>highlightTablesReferencingValue\<close> over the nodes of the table list, which are absent
  when \<open>tablesGridOptions.api\<close> is: it clears every row class, then marks each node
  other than the origin whose first 200 rows hold the value.
\<close>

definition mark_node :: "vstate \<Rightarrow> entry \<Rightarrow> string \<Rightarrow> jsval \<Rightarrow> bool" where
  "mark_node st node originTable v =
     (if entry_name node = originTable then False
      else
        (case v_tableMap st (entry_name node) of
           None \<Rightarrow> False
         | Some tbl \<Rightarrow>
             (case getData tbl None (Some 200) of
                Inl e \<Rightarrow> False
              | Inr data \<Rightarrow> list_ex (\<lambda>r. list_ex (\<lambda>x. strict_eq x v) (Object_values r)) data)))"

fun mark_nodes :: "vstate \<Rightarrow> entry list \<Rightarrow> string \<Rightarrow> jsval \<Rightarrow> vstate" where
  "mark_nodes st [] originTable v = st"
| "mark_nodes st (node # nodes) originTable v =
     (if mark_node st node originTable v
      then mark_nodes (st\<lparr> v_rowClass := (v_rowClass st)(entry_name node \<mapsto> ''referenced-table'') \<rparr>)
             nodes originTable v
      else mark_nodes st nodes originTable v)"

fun clear_classes :: "vstate \<Rightarrow> entry list \<Rightarrow> vstate" where
  "clear_classes st [] = st"
| "clear_classes st (node # nodes) =
     clear_classes (st\<lparr> v_rowClass := (v_rowClass st)(entry_name node \<mapsto> []) \<rparr>) nodes"

definition highlightTablesReferencingValue ::
  "entry list option \<Rightarrow> vstate \<Rightarrow> jsval \<Rightarrow> string \<Rightarrow> string \<Rightarrow> vstate" where
  "highlightTablesReferencingValue api_nodes st v originTable originCol =
     (case api_nodes of
        None \<Rightarrow> st
      | Some nodes \<Rightarrow> mark_nodes (clear_classes st nodes) nodes originTable v)"

definition onCellMouseOver ::
  "entry list option \<Rightarrow> vstate \<Rightarrow> string \<Rightarrow> string \<Rightarrow> jsval \<Rightarrow> vstate" where
  "onCellMouseOver api_nodes st tableName fld v =
     (if v = JNull \<or> v = JUndefined then st
      else highlightTablesReferencingValue api_nodes st v tableName fld)"

text \<open>
  \<open>buildTablesList\<close> of this variant: the catalog, then the advisory relationship cache
  read from \<open>MSysRelationships\<close> (empty when the table or the read fails), then the table
  list. A failing enumeration leaves by the exception.
\<close>

definition buildTablesList_v :: "vstate \<Rightarrow> vstate \<times> jserror option" where
  "buildTablesList_v st =
     (case v_reader st of
        None \<Rightarrow> (st, Some TypeError)
      | Some r \<Rightarrow>
          (case getTableNames r of
             Inl e \<Rightarrow> (st, Some e)
           | Inr names \<Rightarrow>
               (let (tables, tm) = buildEntries r names (v_tableMap st);
                    rels = (case getTable r ''MSysRelationships'' of
                              Inl e \<Rightarrow> []
                            | Inr relTable \<Rightarrow>
                                (case getData relTable None (Some 10000) of
                                   Inl e \<Rightarrow> []
                                 | Inr rels \<Rightarrow> rels))
                in (st\<lparr> v_tables := tables, v_tableMap := tm, v_relationships := rels,
                        v_tablesGrid := Some tables \<rparr>, None))))"

section \<open>Base64 and the stored file\<close>

text \<open>
  \<open>btoa\<close>, \<open>atob\<close> and \<open>FileReader\<close> belong to the browser; they are written out here as
  the web standards define them. The base64 alphabet of \<open>btoa\<close>, \<open>atob\<close> and of data
  URLs: \<open>A\<close>--\<open>Z\<close>, \<open>a\<close>--\<open>z\<close>, \<open>0\<close>--\<open>9\<close>, \<open>+\<close> and \<open>/\<close>.
\<close>

definition b64_char :: "nat \<Rightarrow> char" where
  "b64_char n =
     (if n < 26 then char_of (65 + n)
      else if n < 52 then char_of (71 + n)
      else if n < 62 then char_of (n - 4)
      else if n = 62 then CHR ''+'' else CHR ''/'')"

definition b64_index :: "char \<Rightarrow> nat option" where
  "b64_index c =
     (let k = (of_char c :: nat) in
      if 65 \<le> k \<and> k \<le> 90 then Some (k - 65)
      else if 97 \<le> k \<and> k \<le> 122 then Some (k - 71)
      else if 48 \<le> k \<and> k \<le> 57 then Some (k + 4)
      else if k = 43 then Some 62
      else if k = 47 then Some 63
      else None)"

text \<open>The 6-bit groups of a binary string, three code units making four groups.\<close>

fun sextets :: "string \<Rightarrow> nat list" where
  "sextets [] = []"
| "sextets [a] = (let x = (of_char a :: nat) in [x div 4, (x mod 4) * 16])"
| "sextets [a, b] =
     (let x = (of_char a :: nat); y = (of_char b :: nat)
      in [x div 4, (x mod 4) * 16 + y div 16, (y mod 16) * 4])"
| "sextets (a # b # c # rest) =
     (let x = (of_char a :: nat); y = (of_char b :: nat); z = (of_char c :: nat)
      in [x div 4, (x mod 4) * 16 + y div 16, (y mod 16) * 4 + z div 64, z mod 64]
         @ sextets rest)"

text \<open>\<open>btoa\<close>: the groups in the alphabet, padded with \<open>=\<close> to a multiple of four.\<close>

definition btoa :: "string \<Rightarrow> string" where
  "btoa s = map b64_char (sextets s) @ replicate ((3 - length s mod 3) mod 3) (CHR ''='')"

definition InvalidCharacterError :: jserror where
  "InvalidCharacterError = JsError ''InvalidCharacterError'' (Some 5) []"

definition ascii_whitespace :: "char \<Rightarrow> bool" where
  "ascii_whitespace c \<longleftrightarrow> (of_char c :: nat) \<in> {9, 10, 12, 13, 32}"

text \<open>The bytes of a list of 6-bit groups; a group left alone at the end gives nothing.\<close>

fun octets :: "nat list \<Rightarrow> nat list" where
  "octets (a # b # c # d # rest) =
     [a * 4 + b div 16, (b mod 16) * 16 + c div 4, (c mod 4) * 64 + d] @ octets rest"
| "octets [a, b, c] = [a * 4 + b div 16, (b mod 16) * 16 + c div 4]"
| "octets [a, b] = [a * 4 + b div 16]"
| "octets _ = []"

text \<open>A trailing \<open>=\<close> or \<open>==\<close> is dropped from a text whose length is a multiple of four.\<close>

definition strip_padding :: "string \<Rightarrow> string" where
  "strip_padding d =
     (if length d mod 4 = 0 \<and> d \<noteq> [] \<and> last d = CHR ''='' then
        (let d' = butlast d
         in if d' \<noteq> [] \<and> last d' = CHR ''='' then butlast d' else d')
      else d)"

fun those_indices :: "string \<Rightarrow> nat list option" where
  "those_indices [] = Some []"
| "those_indices (c # cs) =
     (case b64_index c of
        None \<Rightarrow> None
      | Some k \<Rightarrow> (case those_indices cs of None \<Rightarrow> None | Some ks \<Rightarrow> Some (k # ks)))"

text \<open>
  \<open>atob\<close>, the forgiving base64 decoding: white space is removed, the padding dropped,
  and a length of 1 modulo 4 or a character outside the alphabet throws.
\<close>

definition atob :: "string \<Rightarrow> jserror + string" where
  "atob data =
     (let d = strip_padding (filter (\<lambda>c. \<not> ascii_whitespace c) data) in
      if length d mod 4 = 1 then Inl InvalidCharacterError
      else (case those_indices d of
              None \<Rightarrow> Inl InvalidCharacterError
            | Some ks \<Rightarrow> Inr (map char_of (octets ks))))"

type_synonym bytes = "8 word list"

text \<open>
  The loop of \<open>base64ToArrayBuffer\<close>: \<open>bytes[i] = binaryString.charCodeAt(i)\<close> for every
  index, a store into a \<open>Uint8Array\<close> keeping the low eight bits.
\<close>

function fill_bytes :: "string \<Rightarrow> nat \<Rightarrow> bytes \<Rightarrow> bytes" where
  "fill_bytes binaryString i bs =
     (if i < length binaryString
      then fill_bytes binaryString (i + 1) (bs[i := word_of_nat (of_char (binaryString ! i))])
      else bs)"
  by pat_completeness auto
termination
  by (relation "measure (\<lambda>(binaryString, i, bs). length binaryString - i)") auto

definition base64ToArrayBuffer :: "string \<Rightarrow> jserror + bytes" where
  "base64ToArrayBuffer base64 =
     (case atob base64 of
        Inl e \<Rightarrow> Inl e
      | Inr binaryString \<Rightarrow>
          Inr (fill_bytes binaryString 0 (replicate (length binaryString) 0)))"

text \<open>A file of the browser: its name, its media type and its bytes.\<close>

record jsfile =
  file_name :: string
  file_type :: string
  file_bytes :: bytes

text \<open>\<open>String.fromCharCode\<close> on bytes.\<close>

definition fromCharCode :: "bytes \<Rightarrow> string" where
  "fromCharCode bs = map (\<lambda>b. char_of (unat b)) bs"

text \<open>\<open>FileReader.readAsDataURL\<close>: \<open>data:\<close>, the media type, \<open>;base64,\<close> and the base64 text.\<close>

definition readAsDataURL :: "jsfile \<Rightarrow> string" where
  "readAsDataURL f = ''data:'' @ file_type f @ '';base64,'' @ btoa (fromCharCode (file_bytes f))"

text \<open>\<open>indexOf\<close> of one character: the first position, or -1.\<close>

fun indexOf :: "string \<Rightarrow> char \<Rightarrow> int" where
  "indexOf [] c = - 1"
| "indexOf (x # xs) c =
     (if x = c then 0 else (let k = indexOf xs c in if k < 0 then - 1 else k + 1))"

text \<open>\<open>slice(k)\<close> with one argument: from \<open>k\<close> on, a negative \<open>k\<close> counting from the end.\<close>

definition slice_from :: "string \<Rightarrow> int \<Rightarrow> string" where
  "slice_from s k = (if k < 0 then drop (nat (int (length s) + k)) s else drop (nat k) s)"

section \<open>Persistence adapter (the variant with two stores)\<close>

text \<open>
  The two stores: the fast store, a map from keys to texts, and the record under the key
  \<open>'file'\<close> of the object store \<open>'files'\<close>, which is \<open>{ file, name }\<close> when present.
\<close>

record storage =
  localStorage :: "string \<rightharpoonup> string"
  idb_files :: "(jsfile \<times> string) option"

text \<open>
  What the browser decides: whether \<open>setItem(key, value)\<close> throws and what, whether the
  \<open>FileReader\<close> of \<open>fileToBase64\<close> fails, whether the n-th \<open>idbSaveFile\<close> of one save fails,
  whether \<open>idbLoadFile\<close> fails, and whether reading the stored blob fails.
\<close>

record env =
  ls_fault :: "string \<Rightarrow> string \<Rightarrow> jserror option"
  fr_fault :: "jserror option"
  idb_put_fault :: "nat \<Rightarrow> jserror option"
  idb_get_fault :: "jserror option"
  blob_fault :: bool

definition isQuotaError :: "jserror \<Rightarrow> bool" where
  "isQuotaError err \<longleftrightarrow>
     err_name err = ''QuotaExceededError'' \<or>
     err_name err = ''NS_ERROR_DOM_QUOTA_REACHED'' \<or>
     err_code err = Some 22 \<or>
     err_code err = Some 1014"

definition setItem :: "env \<Rightarrow> storage \<Rightarrow> string \<Rightarrow> string \<Rightarrow> jserror + storage" where
  "setItem ev st k v =
     (case ls_fault ev k v of
        Some e \<Rightarrow> Inl e
      | None \<Rightarrow> Inr (st\<lparr> localStorage := (localStorage st)(k \<mapsto> v) \<rparr>))"

definition idbSaveFile :: "env \<Rightarrow> nat \<Rightarrow> storage \<Rightarrow> jsfile \<Rightarrow> string \<Rightarrow> jserror + storage" where
  "idbSaveFile ev attempt st f n =
     (case idb_put_fault ev attempt of
        Some e \<Rightarrow> Inl e
      | None \<Rightarrow> Inr (st\<lparr> idb_files := Some (f, n) \<rparr>))"

definition idbLoadFile :: "env \<Rightarrow> storage \<Rightarrow> jserror + (bytes \<times> string option) option" where
  "idbLoadFile ev st =
     (case idb_get_fault ev of
        Some e \<Rightarrow> Inl e
      | None \<Rightarrow>
          (case idb_files st of
             None \<Rightarrow> Inr None
           | Some (f, n) \<Rightarrow>
               if blob_fault ev then Inr None else Inr (Some (file_bytes f, Some n))))"

definition fileToBase64 :: "env \<Rightarrow> jsfile \<Rightarrow> jserror + string" where
  "fileToBase64 ev f =
     (case fr_fault ev of
        Some e \<Rightarrow> Inl e
      | None \<Rightarrow>
          (let dataUrl = readAsDataURL f; idx = indexOf dataUrl (CHR '','')
           in Inr (slice_from dataUrl (idx + 1))))"

text \<open>
  The last resort of \<open>saveFile\<close>, its outer \<open>catch\<close>: one more \<open>idbSaveFile\<close>, whose error is
  the error of the save.
\<close>

definition saveFile_outer :: "env \<Rightarrow> nat \<Rightarrow> storage \<Rightarrow> jsfile \<Rightarrow> (jserror + string) \<times> storage" where
  "saveFile_outer ev attempt st f =
     (case idbSaveFile ev attempt st f (file_name f) of
        Inr st' \<Rightarrow> (Inr ''indexedDB'', st')
      | Inl e \<Rightarrow> (Inl e, st))"

text \<open>
  The inner \<open>catch\<close>: on a quota error and on any other error alike it stores the file
  in the object store; when that throws, the exception reaches the outer \<open>catch\<close>.
\<close>

definition saveFile_inner :: "env \<Rightarrow> jserror \<Rightarrow> storage \<Rightarrow> jsfile \<Rightarrow> (jserror + string) \<times> storage" where
  "saveFile_inner ev err st f =
     (if isQuotaError err then
        (case idbSaveFile ev 0 st f (file_name f) of
           Inr st' \<Rightarrow> (Inr ''indexedDB'', st')
         | Inl e \<Rightarrow> saveFile_outer ev 1 st f)
      else
        (case idbSaveFile ev 0 st f (file_name f) of
           Inr st' \<Rightarrow> (Inr ''indexedDB'', st')
         | Inl e \<Rightarrow> saveFile_outer ev 1 st f))"

definition saveFile :: "env \<Rightarrow> storage \<Rightarrow> jsfile \<Rightarrow> (jserror + string) \<times> storage" where
  "saveFile ev st f =
     (case fileToBase64 ev f of
        Inl err \<Rightarrow> saveFile_outer ev 0 st f
      | Inr base64 \<Rightarrow>
          (case setItem ev st ''mdb-base64'' base64 of
             Inl err \<Rightarrow> saveFile_inner ev err st f
           | Inr st1 \<Rightarrow>
               (case setItem ev st1 ''mdb-name'' (file_name f) of
                  Inl err \<Rightarrow> saveFile_inner ev err st1 f
                | Inr st2 \<Rightarrow> (Inr ''localStorage'', st2))))"

text \<open>
  \<open>loadStoredFile\<close>: the fast store first, when its text is not empty; else the object
  store, whose failure counts as no record. A text that \<open>atob\<close> rejects throws.
\<close>

definition loadStoredFile :: "env \<Rightarrow> storage \<Rightarrow> jserror + (bytes \<times> string option) option" where
  "loadStoredFile ev st =
     (let base64 = localStorage st ''mdb-base64'';
          nm = localStorage st ''mdb-name''
      in case base64 of
           Some b \<Rightarrow>
             if b \<noteq> [] then
               (case base64ToArrayBuffer b of
                  Inl e \<Rightarrow> Inl e
                | Inr ab \<Rightarrow> Inr (Some (ab, nm)))
             else (case idbLoadFile ev st of Inl e \<Rightarrow> Inr None | Inr en \<Rightarrow> Inr en)
         | None \<Rightarrow> (case idbLoadFile ev st of Inl e \<Rightarrow> Inr None | Inr en \<Rightarrow> Inr en))"

section \<open>Persistence of the variant with value following\<close>

text \<open>
  \<open>arrayBufferToBase64\<close>: the binary string is put together from chunks of 0x8000 bytes,
  then encoded.
\<close>

definition chunkSize :: nat where
  "chunkSize = 32768"

function chunk_loop :: "bytes \<Rightarrow> nat \<Rightarrow> string \<Rightarrow> string" where
  "chunk_loop bs i binary =
     (if i < length bs
      then chunk_loop bs (i + chunkSize) (binary @ fromCharCode (take chunkSize (drop i bs)))
      else binary)"
  by pat_completeness auto
termination
  by (relation "measure (\<lambda>(bs, i, binary). length bs - i)") (auto simp: chunkSize_def)

definition arrayBufferToBase64 :: "bytes \<Rightarrow> string" where
  "arrayBufferToBase64 buffer = btoa (chunk_loop buffer 0 [])"

text \<open>
  \<open>saveFileToLocalStorage\<close>: both writes in one \<open>try\<close>; when a write throws, the \<open>catch\<close>
  logs the error and sets the status line, and nothing else is tried.
\<close>

definition saveFileToLocalStorage ::
  "(string \<Rightarrow> string \<Rightarrow> jserror option) \<Rightarrow> vstate \<Rightarrow> string \<Rightarrow> string \<Rightarrow> vstate" where
  "saveFileToLocalStorage fault st base64 n =
     (case fault ''mdb-reader:lastFile'' base64 of
        Some e \<Rightarrow> st\<lparr> v_status := ''Loaded (localStorage save failed)'' \<rparr>
      | None \<Rightarrow>
          (let st1 = st\<lparr> v_localStorage := (v_localStorage st)(''mdb-reader:lastFile'' \<mapsto> base64) \<rparr>
           in case fault ''mdb-reader:lastFileName'' n of
                Some e \<Rightarrow> st1\<lparr> v_status := ''Loaded (localStorage save failed)'' \<rparr>
              | None \<Rightarrow>
                  st1\<lparr> v_localStorage := (v_localStorage st1)(''mdb-reader:lastFileName'' \<mapsto> n),
                       v_status := ''Saved to local storage'' \<rparr>))"

text \<open>
  \<open>loadFile\<close> with the file read: \<open>parse\<close> is the constructor of the decoding library.
  Without a dropped file it takes the single file of the input element.
\<close>

definition loadFile ::
  "(string \<Rightarrow> string \<Rightarrow> jserror option) \<Rightarrow> (bytes \<Rightarrow> jserror + mdbreader) \<Rightarrow>
   vstate \<Rightarrow> jsfile option \<Rightarrow> jsfile list \<Rightarrow> vstate" where
  "loadFile fault parse st droppedFile inputFiles =
     (let st0 = st\<lparr> v_status := ''Loading file...'' \<rparr> in
      case (case droppedFile of
              Some f \<Rightarrow> Some f
            | None \<Rightarrow> (case inputFiles of [f] \<Rightarrow> Some f | _ \<Rightarrow> None)) of
        None \<Rightarrow> st0\<lparr> v_status := ''Select one file'' \<rparr>
      | Some f \<Rightarrow>
          (case parse (file_bytes f) of
             Inl err \<Rightarrow> st0\<lparr> v_status := ''Error loading file: '' @ err_message err \<rparr>
           | Inr r \<Rightarrow>
               (let st1 = st0\<lparr> v_reader := Some r \<rparr>;
                    st2 = saveFileToLocalStorage fault st1
                            (arrayBufferToBase64 (file_bytes f)) (file_name f)
                in case buildTablesList_v st2 of
                     (st3, Some err) \<Rightarrow>
                       st3\<lparr> v_status := ''Error loading file: '' @ err_message err \<rparr>
                   | (st3, None) \<Rightarrow> st3\<lparr> v_status := ''Loaded'' \<rparr>)))"

text \<open>The drop handler of this variant: the first dropped file is loaded, whatever its name.\<close>

definition drop_v ::
  "(string \<Rightarrow> string \<Rightarrow> jserror option) \<Rightarrow> (bytes \<Rightarrow> jserror + mdbreader) \<Rightarrow>
   vstate \<Rightarrow> jsfile list \<Rightarrow> vstate" where
  "drop_v fault parse st files =
     (case files of
        [] \<Rightarrow> st
      | f # fs \<Rightarrow> loadFile fault parse st (Some f) files)"

section \<open>View controller and drop boundary (the variant with two stores)\<close>

text \<open>
  A column definition of the rows grid: the field and the width, when one was computed.
  The width is what \<open>widths[c] || 100\<close> gives, a number or whatever else the lookup finds.
\<close>

record coldef =
  field :: string
  width :: "jsval option"

text \<open>\<open>ToBoolean\<close>, which the operator \<open>||\<close> applies to its left operand.\<close>

fun truthy :: "jsval \<Rightarrow> bool" where
  "truthy JNull = False"
| "truthy JUndefined = False"
| "truthy (JBool b) = b"
| "truthy (JNum w) = (w \<noteq> 0)"
| "truthy JNaN = False"
| "truthy (JStr s) = (s \<noteq> [])"
| "truthy (JObj ref s) = True"

text \<open>
  \<open>widths[c] || 100\<close>: the own width of the column, else what the prototype chain of the
  plain object \<open>widths\<close> gives under the name, and 100 when that is missing or falsy.
\<close>

definition width_or_100 :: "(string \<rightharpoonup> jsval) \<Rightarrow> (string \<rightharpoonup> nat) \<Rightarrow> string \<Rightarrow> jsval" where
  "width_or_100 proto widths c =
     (let v = (case widths c of
                 Some w \<Rightarrow> JNum (of_nat w)
               | None \<Rightarrow> (case proto c of Some x \<Rightarrow> x | None \<Rightarrow> JUndefined))
      in if truthy v then v else JNum 100)"

text \<open>
  The state of this variant: \<open>reader\<close>, \<open>tableMap\<close>, the status line, the row data and the
  selected row indices of the left grid, the column definitions and the row data of the
  right grid, the classes of the toolbar, and the two stores.
\<close>

record app =
  a_reader :: "mdbreader option"
  a_tableMap :: "string \<rightharpoonup> table"
  a_status :: string
  a_leftRowData :: "entry list"
  a_leftSelected :: "nat list"
  a_rightColumnDefs :: "coldef list"
  a_rightRowData :: "row list"
  a_toolbar :: "string set"
  a_store :: storage

text \<open>
  \<open>showTable\<close>: the display fetch is \<open>t.getData()\<close>, every row of the table. The widths
  come from a sample of 1000 rows; when sampling or estimating throws, the columns get
  no width.
\<close>

definition showTable ::
  "(string \<rightharpoonup> jsval) \<Rightarrow> app \<Rightarrow> string \<Rightarrow> app \<times> jserror option" where
  "showTable proto st n =
     (case a_tableMap st n of
        None \<Rightarrow> (st\<lparr> a_rightColumnDefs := [], a_rightRowData := [] \<rparr>, None)
      | Some t \<Rightarrow>
          (case getData t None None of
             Inl e \<Rightarrow> (st, Some e)
           | Inr rows \<Rightarrow>
               (let columnNames =
                      (case getColumnNames t of
                         Inr cs \<Rightarrow> cs
                       | Inl e \<Rightarrow> (case rows of [] \<Rightarrow> [] | r # rs \<Rightarrow> Object_keys r));
                    plain = map (\<lambda>c. \<lparr> field = c, width = None \<rparr>) columnNames;
                    cols =
                      (case sampleRowsForTable t 1000 of
                         Inl err \<Rightarrow> plain
                       | Inr sampleRows \<Rightarrow>
                           (case computeColumnWidths proto columnNames sampleRows of
                              Inl err \<Rightarrow> plain
                            | Inr widths \<Rightarrow>
                                map (\<lambda>c. \<lparr> field = c, width = Some (width_or_100 proto widths c) \<rparr>)
                                  columnNames))
                in (st\<lparr> a_leftSelected :=
                           filter (\<lambda>i. entry_name (a_leftRowData st ! i) = n)
                             [0 ..< length (a_leftRowData st)],
                         a_rightColumnDefs := cols, a_rightRowData := rows \<rparr>, None))))"

text \<open>
  \<open>buildTablesList\<close> of this variant: everything sits in one \<open>try\<close>, whose \<open>catch\<close> logs
  and clears the status. The first table is selected and shown.
\<close>

definition buildTablesList :: "(string \<rightharpoonup> jsval) \<Rightarrow> app \<Rightarrow> app" where
  "buildTablesList proto st =
     (case a_reader st of
        None \<Rightarrow> st\<lparr> a_status := [] \<rparr>
      | Some r \<Rightarrow>
          (case getTableNames r of
             Inl e \<Rightarrow> st\<lparr> a_status := [] \<rparr>
           | Inr names \<Rightarrow>
               (let (tables, tm) = buildEntries r names (a_tableMap st);
                    st1 = st\<lparr> a_tableMap := tm, a_leftRowData := tables \<rparr>
                in case tables of
                     [] \<Rightarrow> st1\<lparr> a_rightColumnDefs := [], a_rightRowData := [] \<rparr>
                   | t # ts \<Rightarrow>
                       (case showTable proto (st1\<lparr> a_leftSelected := [0] \<rparr>) (entry_name t) of
                          (st2, Some e) \<Rightarrow> st2\<lparr> a_status := [] \<rparr>
                        | (st2, None) \<Rightarrow> st2))))"

text \<open>
  \<open>handleFile\<close> with the file read: a file the library cannot decode clears the status;
  otherwise the file is saved, a failing save being logged only, the catalog is built,
  and the status shows the name.
\<close>

definition handleFile ::
  "(string \<rightharpoonup> jsval) \<Rightarrow> env \<Rightarrow> (bytes \<Rightarrow> jserror + mdbreader) \<Rightarrow> app \<Rightarrow> jsfile \<Rightarrow> app" where
  "handleFile proto ev parse st f =
     (case parse (file_bytes f) of
        Inl err \<Rightarrow> st\<lparr> a_status := [] \<rparr>
      | Inr r \<Rightarrow>
          (let st1 = st\<lparr> a_reader := Some r \<rparr>;
               st2 = st1\<lparr> a_store := snd (saveFile ev (a_store st1) f) \<rparr>;
               st3 = buildTablesList proto st2
           in st3\<lparr> a_status := file_name f \<rparr>))"

text \<open>
  \<open>toLowerCase\<close> on the code units below 256: the letters \<open>A\<close>--\<open>Z\<close> and the upper-case
  letters of Latin-1 move up by 32.
\<close>

definition lower_char :: "char \<Rightarrow> char" where
  "lower_char c =
     (let k = (of_char c :: nat) in
      if (65 \<le> k \<and> k \<le> 90) \<or> (192 \<le> k \<and> k \<le> 222 \<and> k \<noteq> 215) then char_of (k + 32) else c)"

definition toLowerCase :: "string \<Rightarrow> string" where
  "toLowerCase s = map lower_char s"

definition endsWith :: "string \<Rightarrow> string \<Rightarrow> bool" where
  "endsWith s suf \<longleftrightarrow> length suf \<le> length s \<and> drop (length s - length suf) s = suf"

definition isAllowedFileName :: "string \<Rightarrow> bool" where
  "isAllowedFileName n =
     (if n = [] then False
      else (let l = toLowerCase n in endsWith l ''.mdb'' \<or> endsWith l ''.accdb''))"

text \<open>
  The drop handler: the two drag classes go; a first file with another suffix gets the
  class \<open>drag-invalid\<close>, which a timer takes away 1200 ms later, and nothing more; an
  allowed one is handled.
\<close>

definition drop_a ::
  "(string \<rightharpoonup> jsval) \<Rightarrow> env \<Rightarrow> (bytes \<Rightarrow> jserror + mdbreader) \<Rightarrow> app \<Rightarrow> jsfile list \<Rightarrow> app" where
  "drop_a proto ev parse st files =
     (let st0 = st\<lparr> a_toolbar := a_toolbar st - {''drag-invalid'', ''drag-valid''} \<rparr> in
      case files of
        [] \<Rightarrow> st0
      | f # fs \<Rightarrow>
          if \<not> isAllowedFileName (file_name f)
          then st0\<lparr> a_toolbar := insert ''drag-invalid'' (a_toolbar st0) \<rparr>
          else handleFile proto ev parse st0 f)"

definition drop_timer :: "app \<Rightarrow> app" where
  "drop_timer st = st\<lparr> a_toolbar := a_toolbar st - {''drag-invalid''} \<rparr>"

section \<open>Reference points for the statements and example inputs\<close>

text \<open>The catalog entry expected for a table name: its count, or 0 when opening or counting fails.\<close>

definition entry_for :: "mdbreader \<Rightarrow> string \<Rightarrow> entry" where
  "entry_for r n =
     \<lparr> entry_name = n,
       entry_rowCount =
         (case getTable r n of
            Inl e \<Rightarrow> 0
          | Inr t \<Rightarrow> (case rowCount t of Inl e \<Rightarrow> 0 | Inr rc \<Rightarrow> int rc)) \<rparr>"

text \<open>
  Example inputs: what the prototype chain of a plain object gives in one engine (the
  prototype itself and two of the inherited methods), a row, a handle that throws on every
  access, and a reader of three tables.
\<close>

definition plain_proto :: "string \<rightharpoonup> jsval" where
  "plain_proto =
     map_of
       [(''__proto__'', JObj 0 ''[object Object]''),
        (''constructor'', JObj 1 ''function Object() { [native code] }''),
        (''toString'', JObj 2 ''function toString() { [native code] }'')]"

definition example_row :: row where
  "example_row = [(''Id'', JNum 42), (''Name'', JStr ''ACME'')]"

definition bad_table :: table where
  "bad_table =
     \<lparr> rowCount = Inl TypeError, columnCount = 0, getColumnNames = Inl TypeError,
       getData = (\<lambda>off lmt. Inl TypeError) \<rparr>"

definition example_reader :: mdbreader where
  "example_reader =
     \<lparr> getTableNames = Inr [''A'', ''B'', ''C''],
       getTable = (\<lambda>n. if n = ''A'' then Inr (table_of [''Id'', ''Name''] [example_row, example_row])
                        else if n = ''B'' then Inl TypeError
                        else if n = ''C'' then Inr bad_table
                        else Inl TypeError) \<rparr>"

definition empty_storage :: storage where
  "empty_storage = \<lparr> localStorage = Map.empty, idb_files = None \<rparr>"

definition example_app :: app where
  "example_app =
     \<lparr> a_reader = Some example_reader, a_tableMap = Map.empty, a_status = [],
       a_leftRowData = [], a_leftSelected = [], a_rightColumnDefs = [], a_rightRowData = [],
       a_toolbar = {}, a_store = empty_storage \<rparr>"

definition example_vstate :: vstate where
  "example_vstate =
     \<lparr> v_reader = Some example_reader, v_tables = [], v_tableMap = Map.empty,
       v_relationships = [], v_status = [], v_currentTable = [], v_tableInfo = None,
       v_tablesGrid = None, v_rowsGrid = None, v_listSelected = None,
       v_rowClass = Map.empty, v_selectValue = None, v_localStorage = Map.empty,
       v_scanned = [] \<rparr>"

text \<open>
  Block \<open>i\<close> of a table for a sample size: \<open>blockSize\<close> rows from row
  \<open>floor(i * rowCount / blocks)\<close> on; and the row positions of all the blocks in order.
\<close>

definition block_rows :: "'a list \<Rightarrow> nat \<Rightarrow> nat \<Rightarrow> 'a list" where
  "block_rows rows sampleSize i =
     take (blockSize sampleSize) (drop ((i * length rows) div blocks) rows)"

definition sample_positions :: "nat \<Rightarrow> nat \<Rightarrow> nat list" where
  "sample_positions rc sampleSize =
     concat (map (\<lambda>i. [(i * rc) div blocks ..< (i * rc) div blocks + blockSize sampleSize])
               [0 ..< blocks])"

text \<open>A table of \<open>n\<close> rows, for \<open>n\<close> below \<open>2^53\<close>, row \<open>i\<close> holding the number \<open>i\<close>.\<close>

definition id_rows :: "nat \<Rightarrow> row list" where
  "id_rows n = map (\<lambda>i. [(''Id'', JNum (of_nat i))]) [0 ..< n]"

text \<open>
  The \<open>lengths\<close> object after the inner loop for one row, and after the outer loop for
  all rows: every array of a column name grows by the cell length once per occurrence of
  the name in the list of column names.
\<close>

definition pushed_row ::
  "(string \<rightharpoonup> jsval) \<Rightarrow> row \<Rightarrow> string list \<Rightarrow> (string \<rightharpoonup> nat list) \<Rightarrow> (string \<rightharpoonup> nat list)" where
  "pushed_row proto r cs m =
     (\<lambda>c. case m c of
             None \<Rightarrow> None
           | Some arr \<Rightarrow> Some (arr @ replicate (count_list cs c) (cell_length proto r c)))"

definition pushed_rows ::
  "(string \<rightharpoonup> jsval) \<Rightarrow> row list \<Rightarrow> string list \<Rightarrow> (string \<rightharpoonup> nat list)
   \<Rightarrow> (string \<rightharpoonup> nat list)" where
  "pushed_rows proto rs cs m =
     (\<lambda>c. case m c of
             None \<Rightarrow> None
           | Some arr \<Rightarrow>
               Some (arr @ concat (map (\<lambda>r. replicate (count_list cs c) (cell_length proto r c)) rs)))"

text \<open>The width computed from a percentile length in the last loop.\<close>

definition clamp_width :: "nat \<Rightarrow> nat" where
  "clamp_width len75 = min (max (len75 * charWidth + cellPadding) minWidth) maxWidth"

text \<open>Four sample rows with texts of different lengths, a null cell and a negative number.\<close>

definition width_rows :: "row list" where
  "width_rows =
     [[(''Id'', JNum 1), (''Name'', JStr ''ACME'')],
      [(''Id'', JNum 22), (''Name'', JNull)],
      [(''Id'', JNum 333), (''Name'', JStr ''A considerably longer company name'')],
      [(''Id'', JNum (- 4444)), (''Name'', JStr ''Initech'')]]"

text \<open>Some cell of some row is strictly equal to the value.\<close>

definition cell_match :: "row list \<Rightarrow> jsval \<Rightarrow> bool" where
  "cell_match data v \<longleftrightarrow> (\<exists>r \<in> set data. \<exists>x \<in> set (Object_values r). strict_eq x v)"

text \<open>
  A table of the catalog that a click scan fetches, and one on which it hits: the handle
  is cached, and for a hit its first 10000 rows are fetched and hold the value.
\<close>

definition fetched :: "(string \<rightharpoonup> table) \<Rightarrow> entry \<Rightarrow> bool" where
  "fetched tm e \<longleftrightarrow> tm (entry_name e) \<noteq> None"

definition hit :: "(string \<rightharpoonup> table) \<Rightarrow> jsval \<Rightarrow> entry \<Rightarrow> bool" where
  "hit tm v e =
     (case tm (entry_name e) of
        None \<Rightarrow> False
      | Some tbl \<Rightarrow>
          (case getData tbl None (Some 10000) of
             Inl err \<Rightarrow> False
           | Inr data \<Rightarrow> scan_rows data v))"

text \<open>A handle on which \<open>selectTable\<close> does not throw.\<close>

definition selectable :: "table \<Rightarrow> bool" where
  "selectable tbl =
     (case rowCount tbl of
        Inl err \<Rightarrow> False
      | Inr rc \<Rightarrow>
          (case getData tbl None (Some 5000) of
             Inl err \<Rightarrow> False
           | Inr rows \<Rightarrow> (case getColumnNames tbl of Inl err \<Rightarrow> False | Inr cols \<Rightarrow> True)))"

text \<open>
  A consistent snapshot: a cached handle whose scan fetch succeeds can also be displayed.
\<close>

definition consistent :: "(string \<rightharpoonup> table) \<Rightarrow> entry \<Rightarrow> bool" where
  "consistent tm e =
     (case tm (entry_name e) of
        None \<Rightarrow> True
      | Some tbl \<Rightarrow>
          (case getData tbl None (Some 10000) of
             Inl err \<Rightarrow> True
           | Inr data \<Rightarrow> selectable tbl))"

text \<open>The tables a scan visits: the others up to and including the first hit.\<close>

definition visited :: "(string \<rightharpoonup> table) \<Rightarrow> jsval \<Rightarrow> entry list \<Rightarrow> entry list" where
  "visited tm v others =
     takeWhile (\<lambda>e. \<not> hit tm v e) others @ take 1 (dropWhile (\<lambda>e. \<not> hit tm v e) others)"

text \<open>
  The snapshot of the scenario: the origin \<open>A\<close> holding the number 42, \<open>B\<close> holding the
  text \<open>"42"\<close>, and \<open>C\<close> and \<open>D\<close> holding the number 42.
\<close>

definition match_tables :: "(string \<times> table) list" where
  "match_tables =
     [(''A'', table_of [''Id''] [[(''Id'', JNum 42)]]),
      (''B'', table_of [''Code''] [[(''Code'', JStr ''42'')]]),
      (''C'', table_of [''Ref''] [[(''Ref'', JNum 7)], [(''Ref'', JNum 42)]]),
      (''D'', table_of [''Ref''] [[(''Ref'', JNum 42)]])]"

definition match_state :: vstate where
  "match_state =
     example_vstate
       \<lparr> v_tables := map (\<lambda>(n, t). \<lparr> entry_name = n, entry_rowCount = 1 \<rparr>) match_tables,
         v_tableMap := map_of match_tables \<rparr>"






text \<open>A browser in which no store fails, a quota error, and an error of the object store.\<close>

definition no_fault :: env where
  "no_fault =
     \<lparr> ls_fault = (\<lambda>k v. None), fr_fault = None, idb_put_fault = (\<lambda>n. None),
       idb_get_fault = None, blob_fault = False \<rparr>"

definition quota_error :: jserror where
  "quota_error = JsError ''QuotaExceededError'' (Some 22) ''The quota has been exceeded.''"

definition idb_error :: jserror where
  "idb_error = JsError ''UnknownError'' None ''The object store is not available.''"

text \<open>The fast store is full; the object store works.\<close>

definition quota_env :: env where
  "quota_env = no_fault \<lparr> ls_fault := (\<lambda>k v. Some quota_error) \<rparr>"

text \<open>The fast store is full and the object store rejects every write.\<close>

definition quota_env_idb_down :: env where
  "quota_env_idb_down = quota_env \<lparr> idb_put_fault := (\<lambda>n. Some idb_error) \<rparr>"

text \<open>A fast store that takes the text of a file and is full when the name follows.\<close>

definition name_fault :: "string \<Rightarrow> string \<Rightarrow> jserror option" where
  "name_fault k v = (if k = ''mdb-reader:lastFileName'' then Some quota_error else None)"

text \<open>Nothing fails but the read of the object store.\<close>

definition idb_unreadable :: env where
  "idb_unreadable = no_fault \<lparr> idb_get_fault := Some idb_error \<rparr>"

text \<open>A file without bytes and a file of the single byte 0x42.\<close>

definition empty_file :: jsfile where
  "empty_file =
     \<lparr> file_name = ''empty.mdb'', file_type = ''application/x-msaccess'', file_bytes = [] \<rparr>"

definition file_b :: jsfile where
  "file_b =
     \<lparr> file_name = ''b.mdb'', file_type = ''application/x-msaccess'', file_bytes = [0x42] \<rparr>"

text \<open>A fast store that still holds an earlier file, the single byte 0x41.\<close>

definition stale_storage :: storage where
  "stale_storage =
     \<lparr> localStorage = [''mdb-base64'' \<mapsto> ''QQ=='', ''mdb-name'' \<mapsto> ''a.mdb''],
       idb_files = None \<rparr>"

text \<open>The table \<open>Orders\<close> of 50000 rows, cached in a state of either variant.\<close>

definition orders_table :: table where
  "orders_table = table_of [''Id''] (id_rows 50000)"

definition orders_app :: app where
  "orders_app = example_app \<lparr> a_tableMap := [''Orders'' \<mapsto> orders_table] \<rparr>"

definition orders_vstate :: vstate where
  "orders_vstate = example_vstate \<lparr> v_tableMap := [''Orders'' \<mapsto> orders_table] \<rparr>"

text \<open>A dropped text file, and a database file whose suffix is in upper case.\<close>

definition notes_file :: jsfile where
  "notes_file = \<lparr> file_name = ''notes.txt'', file_type = ''text/plain'', file_bytes = [0x42] \<rparr>"

definition upper_file :: jsfile where
  "upper_file =
     \<lparr> file_name = ''Sales.ACCDB'', file_type = ''application/msaccess'', file_bytes = [0x42] \<rparr>"

text \<open>A state of the variant with value following before any file is loaded.\<close>

definition blank_vstate :: vstate where
  "blank_vstate = example_vstate \<lparr> v_reader := None \<rparr>"

section \<open>Properties of the catalog builder\<close>

lemma buildEntries_entries:
  "fst (buildEntries r ns tm) = map (entry_for r) ns"
  by (induction ns arbitrary: tm) (simp_all add: case_prod_beta entry_for_def split: sum.splits)

lemma showTable_leftRowData:
  "a_leftRowData (fst (showTable proto st n)) = a_leftRowData st"
  by (simp add: showTable_def Let_def split: option.splits sum.splits)

lemma buildTablesList_leftRowData:
  assumes "a_reader st = Some r" and "getTableNames r = Inr names"
  shows "a_leftRowData (buildTablesList proto st) = map (entry_for r) names"
proof -
  obtain tables tm where bt: "buildEntries r names (a_tableMap st) = (tables, tm)"
    by (cases "buildEntries r names (a_tableMap st)")
  have tabs: "tables = map (entry_for r) names"
    using buildEntries_entries [of r names "a_tableMap st"] bt by simp
  show ?thesis
  proof (cases tables)
    case Nil
    then show ?thesis using assms bt tabs by (simp add: buildTablesList_def)
  next
    case (Cons t ts)
    let ?st1 = "st\<lparr> a_tableMap := tm, a_leftRowData := tables, a_leftSelected := [0] \<rparr>"
    obtain st2 err where sh: "showTable proto ?st1 (entry_name t) = (st2, err)"
      by (cases "showTable proto ?st1 (entry_name t)")
    have "a_leftRowData st2 = tables"
      using showTable_leftRowData [of proto ?st1 "entry_name t"] sh by simp
    then have "a_leftRowData (buildTablesList proto st) = tables"
      using assms bt Cons sh by (cases err) (simp_all add: buildTablesList_def)
    then show ?thesis using tabs by simp
  qed
qed

lemma buildTablesList_v_tables:
  assumes "v_reader vs = Some r" and "getTableNames r = Inr names"
  shows "v_tables (fst (buildTablesList_v vs)) = map (entry_for r) names"
    and "snd (buildTablesList_v vs) = None"
  using assms buildEntries_entries [of r names "v_tableMap vs"]
  by (simp_all add: buildTablesList_v_def case_prod_beta Let_def)

text \<open>
  Claim C3. When the enumeration of the table names returns \<open>names\<close>, the catalog of
  either variant is the list of the entries of these names, in enumeration order: it has
  as many entries as there are names, entry \<open>i\<close> carries the \<open>i\<close>-th name, with the count
  of its table when opening and counting succeed and with 0 when either fails, the other
  entries being built all the same, and no count is negative.
\<close>

theorem catalog_builder_entries:
  assumes "getTableNames r = Inr names"
    and "a_reader st = Some r" and "v_reader vs = Some r"
  shows "a_leftRowData (buildTablesList proto st) = map (entry_for r) names
       \<and> v_tables (fst (buildTablesList_v vs)) = map (entry_for r) names
       \<and> snd (buildTablesList_v vs) = None
       \<and> length (map (entry_for r) names) = length names
       \<and> (\<forall>i < length names.
            entry_name (map (entry_for r) names ! i) = names ! i
          \<and> ((case getTable r (names ! i) of
                 Inl e \<Rightarrow> True
               | Inr t \<Rightarrow> (case rowCount t of Inl e \<Rightarrow> True | Inr rc \<Rightarrow> False))
              \<longrightarrow> map (entry_for r) names ! i = \<lparr> entry_name = names ! i, entry_rowCount = 0 \<rparr>)
          \<and> (\<forall>t rc. getTable r (names ! i) = Inr t \<and> rowCount t = Inr rc
              \<longrightarrow> map (entry_for r) names ! i = \<lparr> entry_name = names ! i, entry_rowCount = int rc \<rparr>))
       \<and> (\<forall>e \<in> set (map (entry_for r) names). 0 \<le> entry_rowCount e)"
proof -
  have a: "a_leftRowData (buildTablesList proto st) = map (entry_for r) names"
    using assms by (simp add: buildTablesList_leftRowData)
  have b: "v_tables (fst (buildTablesList_v vs)) = map (entry_for r) names"
    "snd (buildTablesList_v vs) = None"
    using assms by (simp_all add: buildTablesList_v_tables)
  have c: "\<forall>e \<in> set (map (entry_for r) names). 0 \<le> entry_rowCount e"
    by (auto simp: entry_for_def split: sum.splits)
  have d: "\<forall>i < length names.
            entry_name (map (entry_for r) names ! i) = names ! i
          \<and> ((case getTable r (names ! i) of
                 Inl e \<Rightarrow> True
               | Inr t \<Rightarrow> (case rowCount t of Inl e \<Rightarrow> True | Inr rc \<Rightarrow> False))
              \<longrightarrow> map (entry_for r) names ! i = \<lparr> entry_name = names ! i, entry_rowCount = 0 \<rparr>)
          \<and> (\<forall>t rc. getTable r (names ! i) = Inr t \<and> rowCount t = Inr rc
              \<longrightarrow> map (entry_for r) names ! i = \<lparr> entry_name = names ! i, entry_rowCount = int rc \<rparr>)"
    by (auto simp: entry_for_def split: sum.splits)
  have e: "length (map (entry_for r) names) = length names"
    by simp
  from a b c d e show ?thesis by blast
qed

theorem catalog_builder_entries_witness:
  "getTableNames example_reader = Inr [''A'', ''B'', ''C'']
   \<and> a_leftRowData (buildTablesList plain_proto example_app) =
       [\<lparr> entry_name = ''A'', entry_rowCount = 2 \<rparr>,
        \<lparr> entry_name = ''B'', entry_rowCount = 0 \<rparr>,
        \<lparr> entry_name = ''C'', entry_rowCount = 0 \<rparr>]
   \<and> v_tables (fst (buildTablesList_v example_vstate)) =
       [\<lparr> entry_name = ''A'', entry_rowCount = 2 \<rparr>,
        \<lparr> entry_name = ''B'', entry_rowCount = 0 \<rparr>,
        \<lparr> entry_name = ''C'', entry_rowCount = 0 \<rparr>]"
  using catalog_builder_entries [of example_reader "[''A'', ''B'', ''C'']" example_app example_vstate]
  by (simp add: example_reader_def example_app_def example_vstate_def entry_for_def
        table_of_def bad_table_def)

section \<open>Properties of the row sampler\<close>

lemma honors_getData:
  "honors t rows \<Longrightarrow> getData t (Some off) (Some n) = Inr (take n (drop off rows))"
  by (simp add: honors_def slice_rows_def)

lemma honors_getData_all:
  "honors t rows \<Longrightarrow> getData t None None = Inr rows"
  by (simp add: honors_def slice_rows_def)

lemma sampleLoop_honors:
  "honors t rows \<Longrightarrow> rc = length rows \<Longrightarrow>
   take S (sampleLoop t rc S i acc)
     = take S (acc @ concat (map (block_rows rows S) [i ..< blocks]))"
proof (induction t rc S i acc rule: sampleLoop.induct)
  case (1 t rc S i acc)
  note hon = "1.prems"(1) and rc = "1.prems"(2)
  show ?case
  proof (cases "i < blocks")
    case False
    then show ?thesis by (simp add: sampleLoop.simps [of t rc S i acc])
  next
    case True
    note lt = this
    show ?thesis
    proof (cases "S \<le> length acc")
      case True
      then show ?thesis using lt by (simp add: sampleLoop.simps [of t rc S i acc])
    next
      case False
      have g: "getData t (Some ((i * rc) div blocks)) (Some (blockSize S))
                = Inr (block_rows rows S i)"
        using hon rc by (simp add: honors_getData block_rows_def)
      have ih: "take S (sampleLoop t rc S (i + 1) (acc @ block_rows rows S i))
              = take S ((acc @ block_rows rows S i) @ concat (map (block_rows rows S) [i + 1 ..< blocks]))"
        using "1.IH"(2) [OF lt _ g hon rc] False by simp
      have "[i ..< blocks] = i # [i + 1 ..< blocks]"
        using lt by (simp add: upt_conv_Cons)
      then show ?thesis
        using lt False g ih by (simp add: sampleLoop.simps [of t rc S i acc])
    qed
  qed
qed

lemma block_inside:
  assumes "i < blocks" and "S < rc"
  shows "(i * rc) div blocks + blockSize S \<le> rc"
proof -
  have "i * rc \<le> 19 * rc" using assms(1) by (simp add: blocks_def)
  then have "(i * rc) div 20 \<le> (19 * rc) div 20" by (rule div_le_mono)
  moreover have "(19 * rc) div 20 + (S + 19) div 20 \<le> rc" using assms(2) by arith
  ultimately show ?thesis by (simp add: blocks_def blockSize_def)
qed

lemma length_block_rows:
  assumes "i < blocks" and "S < length rows"
  shows "length (block_rows rows S i) = blockSize S"
  using block_inside [OF assms] by (simp add: block_rows_def)

lemma length_concat_blocks:
  assumes "S < length rows" and "n \<le> blocks"
  shows "length (concat (map (block_rows rows S) [0 ..< n])) = n * blockSize S"
  using assms(2)
proof (induction n)
  case 0
  then show ?case by simp
next
  case (Suc n)
  then show ?case using length_block_rows [of n S rows] assms(1) by simp
qed

lemma blocks_cover: "S \<le> blocks * blockSize S"
  unfolding blocks_def blockSize_def by arith

lemma sampleRows_small:
  assumes "honors t rows" and "length rows \<le> S"
  shows "sampleRowsForTable t S = Inr rows"
  using assms honors_getData_all [OF assms(1)]
  by (simp add: sampleRowsForTable_def honors_def)

lemma sampleRows_large:
  assumes "honors t rows" and "S < length rows"
  shows "sampleRowsForTable t S
       = Inr (take S (concat (map (block_rows rows S) [0 ..< blocks])))"
proof -
  have "rowCount t = Inr (length rows)" using assms(1) by (simp add: honors_def)
  then show ?thesis
    using assms(2) sampleLoop_honors [OF assms(1) refl, of S 0 "[]"]
    by (simp add: sampleRowsForTable_def)
qed

lemma sampleRows_bounded:
  assumes "rowCount t = Inr rc" and "S < rc"
  shows "\<exists>sample. sampleRowsForTable t S = Inr sample \<and> length sample \<le> S"
  using assms by (simp add: sampleRowsForTable_def)

text \<open>
  Claim C4. On a handle that reports its row count accurately and honours offset and
  limit without failing, \<open>sampleRowsForTable\<close> returns all the rows, unsampled, when the
  row count is at most the sample size. When the row count is larger it returns exactly
  \<open>sampleSize\<close> rows: the first \<open>sampleSize\<close> rows of the 20 blocks put end to end, block
  \<open>i\<close> starting at row \<open>floor(i * rowCount / 20)\<close>, holding \<open>blockSize\<close> rows and lying
  inside the table; when 20 divides the sample size, as it does for the default 1000,
  the sample is all 20 blocks in full. On any handle with more rows than the sample
  size, blocks failing or not, sampling returns, with at most \<open>sampleSize\<close> rows.
\<close>

theorem fetchForSampling_boundary:
  assumes "honors t rows"
  shows "(length rows \<le> S \<longrightarrow> sampleRowsForTable t S = Inr rows)
       \<and> (S < length rows \<longrightarrow>
            sampleRowsForTable t S
              = Inr (take S (concat (map (block_rows rows S) [0 ..< blocks])))
          \<and> length (take S (concat (map (block_rows rows S) [0 ..< blocks]))) = S
          \<and> (\<forall>i < blocks. length (block_rows rows S i) = blockSize S
                          \<and> (i * length rows) div blocks + blockSize S \<le> length rows)
          \<and> (blocks dvd S \<longrightarrow>
                sampleRowsForTable t S = Inr (concat (map (block_rows rows S) [0 ..< blocks]))))
       \<and> (\<forall>(t' :: table) rc. rowCount t' = Inr rc \<and> S < rc \<longrightarrow>
             (\<exists>sample. sampleRowsForTable t' S = Inr sample \<and> length sample \<le> S))"
proof -
  have small: "length rows \<le> S \<longrightarrow> sampleRowsForTable t S = Inr rows"
    using assms by (simp add: sampleRows_small)
  have large: "S < length rows \<longrightarrow>
            sampleRowsForTable t S
              = Inr (take S (concat (map (block_rows rows S) [0 ..< blocks])))
          \<and> length (take S (concat (map (block_rows rows S) [0 ..< blocks]))) = S
          \<and> (\<forall>i < blocks. length (block_rows rows S i) = blockSize S
                          \<and> (i * length rows) div blocks + blockSize S \<le> length rows)
          \<and> (blocks dvd S \<longrightarrow>
                sampleRowsForTable t S = Inr (concat (map (block_rows rows S) [0 ..< blocks])))"
  proof
    assume lt: "S < length rows"
    have eq: "sampleRowsForTable t S
         = Inr (take S (concat (map (block_rows rows S) [0 ..< blocks])))"
      using assms lt by (rule sampleRows_large)
    have len: "length (concat (map (block_rows rows S) [0 ..< blocks])) = blocks * blockSize S"
      using length_concat_blocks [OF lt, of blocks] by simp
    have full: "length (take S (concat (map (block_rows rows S) [0 ..< blocks]))) = S"
      using len blocks_cover [of S] by simp
    have inside: "\<forall>i < blocks. length (block_rows rows S i) = blockSize S
                          \<and> (i * length rows) div blocks + blockSize S \<le> length rows"
      using lt by (simp add: length_block_rows block_inside)
    have whole: "blocks dvd S \<longrightarrow>
          sampleRowsForTable t S = Inr (concat (map (block_rows rows S) [0 ..< blocks]))"
    proof
      assume "blocks dvd S"
      then have "blocks * blockSize S = S"
        by (auto simp: blocks_def blockSize_def)
      then show "sampleRowsForTable t S = Inr (concat (map (block_rows rows S) [0 ..< blocks]))"
        using eq len by simp
    qed
    from eq full inside whole
    show "sampleRowsForTable t S
              = Inr (take S (concat (map (block_rows rows S) [0 ..< blocks])))
          \<and> length (take S (concat (map (block_rows rows S) [0 ..< blocks]))) = S
          \<and> (\<forall>i < blocks. length (block_rows rows S i) = blockSize S
                          \<and> (i * length rows) div blocks + blockSize S \<le> length rows)
          \<and> (blocks dvd S \<longrightarrow>
                sampleRowsForTable t S = Inr (concat (map (block_rows rows S) [0 ..< blocks])))"
      by blast
  qed
  have never_fatal: "\<forall>(t' :: table) rc. rowCount t' = Inr rc \<and> S < rc \<longrightarrow>
             (\<exists>sample. sampleRowsForTable t' S = Inr sample \<and> length sample \<le> S)"
    using sampleRows_bounded by blast
  from small large never_fatal show ?thesis by blast
qed

lemma honors_table_of: "honors (table_of cols rows) rows"
  by (simp add: honors_def table_of_def)

theorem fetchForSampling_boundary_witness:
  "honors (table_of [''Id''] (id_rows 41)) (id_rows 41)
   \<and> sampleRowsForTable (table_of [''Id''] (id_rows 40)) 40 = Inr (id_rows 40)
   \<and> sampleRowsForTable (table_of [''Id''] (id_rows 41)) 40
       = Inr (id_rows 40)"
proof -
  have h40: "honors (table_of [''Id''] (id_rows 40)) (id_rows 40)"
    by (rule honors_table_of)
  have h41: "honors (table_of [''Id''] (id_rows 41)) (id_rows 41)"
    by (rule honors_table_of)
  have l40: "length (id_rows 40) \<le> 40" and l41: "40 < length (id_rows 41)"
    by (simp_all add: id_rows_def)
  have e: "concat (map (block_rows (id_rows 41) 40) [0 ..< blocks])
         = id_rows 40"
    by code_simp
  have d: "blocks dvd 40" by (simp add: blocks_def)
  show ?thesis
    using fetchForSampling_boundary [OF h40, of 40] fetchForSampling_boundary [OF h41, of 40]
      h41 l40 l41 e d by simp
qed

lemma offsets_spaced:
  assumes "1000 < rc"
  shows "(i * rc) div blocks + blockSize 1000 \<le> ((i + 1) * rc) div blocks"
proof -
  have "(i * rc + rc) div 20 \<ge> (i * rc) div 20 + 50"
    using assms by arith
  then show ?thesis by (simp add: blocks_def blockSize_def algebra_simps)
qed

lemma positions_prefix:
  assumes "1000 < rc" and "n \<le> blocks"
  shows "sorted_wrt (<) (concat (map (\<lambda>i. [(i * rc) div blocks ..< (i * rc) div blocks + blockSize 1000]) [0 ..< n]))
       \<and> (\<forall>x \<in> set (concat (map (\<lambda>i. [(i * rc) div blocks ..< (i * rc) div blocks + blockSize 1000]) [0 ..< n])).
            x < (n * rc) div blocks)"
  using assms(2)
proof (induction n)
  case 0
  then show ?case by simp
next
  case (Suc n)
  then have ih: "sorted_wrt (<) (concat (map (\<lambda>i. [(i * rc) div blocks ..< (i * rc) div blocks + blockSize 1000]) [0 ..< n]))"
    and bd: "\<forall>x \<in> set (concat (map (\<lambda>i. [(i * rc) div blocks ..< (i * rc) div blocks + blockSize 1000]) [0 ..< n])).
            x < (n * rc) div blocks"
    by simp_all
  have sp: "(n * rc) div blocks + blockSize 1000 \<le> (Suc n * rc) div blocks"
    using offsets_spaced [OF assms(1), of n] by simp
  have s: "sorted_wrt (<) [(n * rc) div blocks ..< (n * rc) div blocks + blockSize 1000]"
    by (simp add: sorted_wrt_upt)
  show ?case
    using ih bd sp s by (force simp: sorted_wrt_append)
qed

lemma block_rows_nth:
  assumes "i < blocks" and "S < length rows"
  shows "block_rows rows S i
       = map (\<lambda>p. rows ! p) [(i * length rows) div blocks ..< (i * length rows) div blocks + blockSize S]"
proof -
  have "(i * length rows) div blocks + blockSize S \<le> length rows"
    using assms by (rule block_inside)
  then show ?thesis
    by (auto simp: block_rows_def intro!: nth_equalityI)
qed

lemma concat_blocks_positions:
  assumes "S < length rows"
  shows "concat (map (block_rows rows S) [0 ..< blocks])
       = map (\<lambda>p. rows ! p)
           (concat (map (\<lambda>i. [(i * length rows) div blocks ..< (i * length rows) div blocks + blockSize S])
                      [0 ..< blocks]))"
proof -
  have "map (block_rows rows S) [0 ..< blocks]
      = map (\<lambda>i. map (\<lambda>p. rows ! p) [(i * length rows) div blocks ..< (i * length rows) div blocks + blockSize S])
          [0 ..< blocks]"
    using assms by (intro map_cong) (simp_all add: block_rows_nth)
  then show ?thesis by (simp only: map_concat map_map comp_def)
qed

text \<open>
  Claim C10. On a table of more than 1000 rows whose fetches honour offset and limit,
  the block size of the default sample is 50, each block offset \<open>floor(i * rowCount / 20)\<close>
  lies at least 50 rows before the next, and the sample is the rows at the positions of
  the 20 blocks, positions that are inside the table and pairwise distinct: no row
  position is sampled twice.
\<close>

theorem sample_blocks_disjoint:
  assumes "honors t rows" and "1000 < length rows"
  shows "blockSize 1000 = 50
       \<and> (\<forall>i. (i * length rows) div blocks + 50 \<le> ((i + 1) * length rows) div blocks)
       \<and> sampleRowsForTable t 1000 = Inr (map (\<lambda>p. rows ! p) (sample_positions (length rows) 1000))
       \<and> distinct (sample_positions (length rows) 1000)
       \<and> (\<forall>p \<in> set (sample_positions (length rows) 1000). p < length rows)"
proof -
  have bs: "blockSize 1000 = 50" by (simp add: blockSize_def blocks_def)
  have sp: "\<forall>i. (i * length rows) div blocks + 50 \<le> ((i + 1) * length rows) div blocks"
    using offsets_spaced [OF assms(2)] bs by simp
  have "length (concat (map (block_rows rows 1000) [0 ..< blocks])) = 1000"
    using length_concat_blocks [OF assms(2), of blocks] bs by (simp add: blocks_def)
  then have "sampleRowsForTable t 1000 = Inr (concat (map (block_rows rows 1000) [0 ..< blocks]))"
    using sampleRows_large [OF assms] by simp
  then have sm: "sampleRowsForTable t 1000
      = Inr (map (\<lambda>p. rows ! p) (sample_positions (length rows) 1000))"
    using concat_blocks_positions [OF assms(2)] by (simp add: sample_positions_def)
  have pp: "sorted_wrt (<) (sample_positions (length rows) 1000)
      \<and> (\<forall>x \<in> set (sample_positions (length rows) 1000). x < (blocks * length rows) div blocks)"
    using positions_prefix [OF assms(2), of blocks] by (simp add: sample_positions_def)
  then have di: "distinct (sample_positions (length rows) 1000)"
    using strict_sorted_iff by blast
  have "(blocks * length rows) div blocks = length rows" by (simp add: blocks_def)
  then have ub: "\<forall>p \<in> set (sample_positions (length rows) 1000). p < length rows"
    using pp by simp
  from bs sp sm di ub show ?thesis by blast
qed

theorem sample_blocks_disjoint_witness:
  "honors (table_of [''Id''] (id_rows 1001)) (id_rows 1001)
   \<and> 1000 < length (id_rows 1001)
   \<and> sampleRowsForTable (table_of [''Id''] (id_rows 1001)) 1000
       = Inr (map (\<lambda>p. id_rows 1001 ! p) (sample_positions 1001 1000))
   \<and> distinct (sample_positions 1001 1000)
   \<and> list_all (\<lambda>p. p < 1001) (sample_positions 1001 1000)
   \<and> (19 * 1001) div blocks + 50 \<le> (1001 :: nat)"
proof -
  have h: "honors (table_of [''Id''] (id_rows 1001)) (id_rows 1001)"
    by (rule honors_table_of)
  have l: "length (id_rows 1001) = 1001"
    by (simp add: id_rows_def)
  have b: "(19 * 1001) div blocks + 50 \<le> (1001 :: nat)"
    by (simp add: blocks_def)
  show ?thesis
    using sample_blocks_disjoint [OF h] h l b by (simp add: list_all_iff)
qed

section \<open>Properties of the column width estimator\<close>

lemma init_lengths_apply:
  "init_lengths cs m c = (if c \<in> set cs then Some [] else m c)"
  by (induction cs arbitrary: m) auto

lemma dom_pushed_row: "dom (pushed_row proto r cs m) = dom m"
  by (auto simp: pushed_row_def split: option.splits)

lemma push_row_result:
  "set cs \<subseteq> dom m \<Longrightarrow> push_row proto r cs m = Inr (pushed_row proto r cs m)"
proof (induction cs arbitrary: m)
  case Nil
  have "pushed_row proto r [] m = m"
    by (rule ext) (simp add: pushed_row_def split: option.splits)
  then show ?case by simp
next
  case (Cons c cs)
  then obtain arr where arr: "m c = Some arr" by auto
  let ?m' = "m(c \<mapsto> arr @ [cell_length proto r c])"
  have sub: "set cs \<subseteq> dom ?m'" using Cons.prems by auto
  have eq: "pushed_row proto r cs ?m' = pushed_row proto r (c # cs) m"
    by (rule ext) (simp add: pushed_row_def arr replicate_append_same split: option.splits)
  have "push_row proto r (c # cs) m = push_row proto r cs ?m'"
    using arr by simp
  then show ?case using Cons.IH [OF sub] eq by (simp only:)
qed

lemma push_rows_result:
  "set cs \<subseteq> dom m \<Longrightarrow> push_rows proto rs cs m = Inr (pushed_rows proto rs cs m)"
proof (induction rs arbitrary: m)
  case Nil
  have "pushed_rows proto [] cs m = m"
    by (rule ext) (simp add: pushed_rows_def split: option.splits)
  then show ?case by simp
next
  case (Cons r rs)
  have sub: "set cs \<subseteq> dom (pushed_row proto r cs m)"
    using Cons.prems by (simp add: dom_pushed_row)
  have "pushed_rows proto rs cs (pushed_row proto r cs m) = pushed_rows proto (r # rs) cs m"
    by (rule ext) (simp add: pushed_rows_def pushed_row_def split: option.splits)
  then show ?case
    using Cons.IH [OF sub] push_row_result [OF Cons.prems, of proto r] by simp
qed

lemma set_widths_result:
  "set cs \<subseteq> dom L \<Longrightarrow>
   set_widths cs L W
     = Inr (\<lambda>c. if c \<in> set cs \<and> c \<noteq> ''__proto__''
                 then (case L c of None \<Rightarrow> None | Some arr \<Rightarrow> Some (clamp_width (percentile75 arr)))
                 else W c)"
proof (induction cs arbitrary: W)
  case Nil
  then show ?case by simp
next
  case (Cons c cs)
  then obtain arr where arr: "L c = Some arr" by auto
  have sub: "set cs \<subseteq> dom L" using Cons.prems by simp
  show ?case
  proof (cases "c = ''__proto__''")
    case True
    then show ?thesis
      using Cons.IH [OF sub, of W] arr by (auto simp: Let_def intro!: ext)
  next
    case False
    then show ?thesis
      using Cons.IH [OF sub] arr by (auto simp: Let_def clamp_width_def intro!: ext)
  qed
qed

lemma sorted_concat_replicate:
  "sorted ys \<Longrightarrow> sorted (concat (map (replicate k) ys))"
  by (induction ys) (auto simp: sorted_append)

lemma mset_concat_replicate:
  "mset xs = mset ys \<Longrightarrow>
   mset (concat (map (replicate k) xs)) = mset (concat (map (replicate k) ys))"
proof -
  assume e: "mset xs = mset ys"
  have "\<And>zs :: 'a list. mset (concat (map (replicate k) zs))
          = (\<Sum>z \<in># mset zs. mset (replicate k z))"
    by (induct_tac zs) simp_all
  then show ?thesis using e by simp
qed

lemma sort_concat_replicate:
  "sort (concat (map (replicate k) xs)) = concat (map (replicate k) (sort xs))"
  by (rule properties_for_sort)
     (simp_all add: sorted_concat_replicate mset_concat_replicate [of "sort xs" xs])

lemma nth_concat_replicate:
  "0 < k \<Longrightarrow> i < k * length ys \<Longrightarrow> concat (map (replicate k) ys) ! i = ys ! (i div k)"
proof (induction ys arbitrary: i)
  case Nil
  then show ?case by simp
next
  case (Cons y ys)
  show ?case
  proof (cases "i < k")
    case True
    then show ?thesis by (simp add: nth_append)
  next
    case False
    then have "i - k < k * length ys" using Cons.prems by simp
    then have "concat (map (replicate k) ys) ! (i - k) = ys ! ((i - k) div k)"
      using Cons.IH Cons.prems(1) by blast
    moreover have "(i - k) div k = i div k - 1"
      using False Cons.prems(1) by (simp add: le_div_geq)
    moreover have "0 < i div k"
      using False Cons.prems(1) by (simp add: div_greater_zero_iff)
    ultimately show ?thesis using False by (simp add: nth_append nth_Cons')
  qed
qed

lemma length_concat_replicate:
  "length (concat (map (replicate k) zs)) = k * length zs"
  by (induction zs) simp_all

lemma percentile75_replicate:
  assumes "0 < k"
  shows "percentile75 (concat (map (replicate k) xs)) = percentile75 xs"
proof (cases "xs = []")
  case True
  then show ?thesis by (simp add: percentile75_def)
next
  case False
  let ?n = "length xs"
  have pos: "0 < k * ?n" using False assms by simp
  have idx: "(k * ?n * 3) div 4 < k * ?n" using pos by arith
  have "(k * ?n * 3) div 4 div k = (?n * 3) div 4"
  proof -
    have "(k * ?n * 3) div 4 div k = (k * (?n * 3)) div (4 * k)"
      by (simp only: div_mult2_eq mult.assoc)
    also have "\<dots> = (k * (?n * 3)) div (k * 4)"
      by (simp only: mult.commute)
    also have "\<dots> = (?n * 3) div 4"
      using assms by (simp only: div_mult_mult1 [of k] neq0_conv [symmetric]) simp
    finally show ?thesis .
  qed
  then have "concat (map (replicate k) (sort xs)) ! ((k * ?n * 3) div 4) = sort xs ! ((?n * 3) div 4)"
    using nth_concat_replicate [OF assms, of "(k * ?n * 3) div 4" "sort xs"] idx by simp
  then show ?thesis
    using False pos
    by (simp add: percentile75_def sort_concat_replicate Let_def length_concat_replicate)
qed

lemma percentile75_spec: "percentile75 ls = spec_percentile ls"
proof -
  have "0.75 * real (length ls) = real (length ls * 3) / real 4"
    by simp
  then have "\<lfloor>0.75 * real (length ls)\<rfloor> = \<lfloor>real (length ls * 3) / real 4\<rfloor>"
    by (simp only:)
  also have "\<dots> = int ((length ls * 3) div 4)"
    by (simp only: floor_divide_of_nat_eq)
  finally have "nat \<lfloor>0.75 * real (length ls)\<rfloor> = (length ls * 3) div 4"
    by simp
  then show ?thesis
    by (simp add: percentile75_def spec_percentile_def Let_def)
qed

lemma cell_length_spec: "cell_length proto r c = spec_cell_length proto r c"
  by (cases "row_get proto r c") (simp_all add: cell_length_def spec_cell_length_def)

lemma clamp_width_spec:
  "clamp_width (percentile75 (map (\<lambda>r. cell_length proto r c) rows)) = spec_width proto c rows"
proof -
  have "nat \<lceil>real (spec_percentile (map (\<lambda>r. spec_cell_length proto r c) rows)) * real charWidth\<rceil>
      = spec_percentile (map (\<lambda>r. spec_cell_length proto r c) rows) * charWidth"
    by (simp only: of_nat_mult [symmetric] ceiling_of_nat nat_int)
  then show ?thesis
    by (simp add: clamp_width_def spec_width_def Let_def percentile75_spec cell_length_spec)
qed

lemma concat_replicate_cells:
  "concat (map (\<lambda>r. replicate k (cell_length proto r c)) rows)
   = concat (map (replicate k) (map (\<lambda>r. cell_length proto r c) rows))"
  by (simp add: comp_def)

text \<open>
  The estimator against the specification: it returns, for each of the column names but
  \<open>__proto__\<close> and for nothing else, the width the specification words.
\<close>

lemma computeColumnWidths_spec:
  "computeColumnWidths proto columnNames sampleRows
   = Inr (\<lambda>c. if c \<in> set columnNames \<and> c \<noteq> ''__proto__''
               then Some (spec_width proto c sampleRows) else None)"
proof -
  let ?I = "init_lengths columnNames Map.empty"
  let ?L = "pushed_rows proto sampleRows columnNames ?I"
  have dom0: "set columnNames \<subseteq> dom ?I"
    by (auto simp: init_lengths_apply)
  have p: "push_rows proto sampleRows columnNames ?I = Inr ?L"
    using dom0 by (rule push_rows_result)
  have dom1: "set columnNames \<subseteq> dom ?L"
    by (auto simp: pushed_rows_def init_lengths_apply)
  have w: "set_widths columnNames ?L Map.empty
      = Inr (\<lambda>c. if c \<in> set columnNames \<and> c \<noteq> ''__proto__''
                 then (case ?L c of
                         None \<Rightarrow> None
                       | Some arr \<Rightarrow> Some (clamp_width (percentile75 arr)))
                 else None)"
    using dom1 by (rule set_widths_result)
  have v: "\<And>c. c \<in> set columnNames \<Longrightarrow>
      (case ?L c of
         None \<Rightarrow> None
       | Some arr \<Rightarrow> Some (clamp_width (percentile75 arr)))
      = Some (spec_width proto c sampleRows)"
  proof -
    fix c assume c: "c \<in> set columnNames"
    then have k: "0 < count_list columnNames c"
      using count_list_0_iff [of columnNames c] by simp
    let ?k = "count_list columnNames c"
    let ?ls = "map (\<lambda>r. cell_length proto r c) sampleRows"
    have e1: "?L c = Some (concat (map (\<lambda>r. replicate ?k (cell_length proto r c)) sampleRows))"
      using c by (simp add: pushed_rows_def init_lengths_apply)
    have e2: "concat (map (\<lambda>r. replicate ?k (cell_length proto r c)) sampleRows)
        = concat (map (replicate ?k) ?ls)"
      by (rule concat_replicate_cells)
    have e3: "percentile75 (concat (map (replicate ?k) ?ls)) = percentile75 ?ls"
      using k by (rule percentile75_replicate)
    have e4: "clamp_width (percentile75 ?ls) = spec_width proto c sampleRows"
      by (rule clamp_width_spec)
    show "(case ?L c of
         None \<Rightarrow> None
       | Some arr \<Rightarrow> Some (clamp_width (percentile75 arr)))
      = Some (spec_width proto c sampleRows)"
      by (simp only: e1 e2 e3 e4 option.case)
  qed
  have "(\<lambda>c. if c \<in> set columnNames \<and> c \<noteq> ''__proto__''
                 then (case ?L c of
                         None \<Rightarrow> None
                       | Some arr \<Rightarrow> Some (clamp_width (percentile75 arr)))
                 else None)
      = (\<lambda>c. if c \<in> set columnNames \<and> c \<noteq> ''__proto__''
               then Some (spec_width proto c sampleRows) else None)"
    by (rule ext) (simp add: v)
  then show ?thesis
    using p w by (simp add: computeColumnWidths_def)
qed

lemma plain_proto_fields:
  "plain_proto ''__proto__'' = Some (JObj 0 ''[object Object]'')"
  "plain_proto ''Id'' = None"
  "plain_proto ''Name'' = None"
  by (simp_all add: plain_proto_def)

lemma width_rows_values:
  "spec_width plain_proto ''Id'' width_rows = 84"
  "spec_width plain_proto ''Name'' width_rows = 432"
  "spec_width plain_proto ''Missing'' width_rows = 60"
  "spec_width plain_proto ''__proto__'' width_rows = 204"
  by code_simp+

text \<open>
  Claim C5. The estimator is to return a width for every column name, between the two
  pixel bounds. For a column named \<open>__proto__\<close> it returns none, whatever the prototype
  chain gives and whatever the sample rows are: \<open>widths['__proto__'] = w\<close> is taken by the
  setter of the prototype, which drops a number. On the four example rows the column
  \<open>Id\<close> beside it gets its width of 84 pixels, \<open>__proto__\<close> gets none, and
  \<open>widths[c] || 100\<close> then finds the prototype object where the width should be.
\<close>

theorem computeColumnWidths_proto_column:
  "(\<exists>W. computeColumnWidths proto [''Id'', ''__proto__''] sampleRows = Inr W
        \<and> W ''__proto__'' = None)
   \<and> (\<exists>W. computeColumnWidths plain_proto [''Id'', ''__proto__''] width_rows = Inr W
        \<and> W ''Id'' = Some 84
        \<and> W ''__proto__'' = None
        \<and> width_or_100 plain_proto W ''__proto__'' = JObj 0 ''[object Object]'')"
proof -
  have a: "\<exists>W. computeColumnWidths proto [''Id'', ''__proto__''] sampleRows = Inr W
        \<and> W ''__proto__'' = None"
    by (simp add: computeColumnWidths_spec)
  have b: "\<exists>W. computeColumnWidths plain_proto [''Id'', ''__proto__''] width_rows = Inr W
        \<and> W ''Id'' = Some 84
        \<and> W ''__proto__'' = None
        \<and> width_or_100 plain_proto W ''__proto__'' = JObj 0 ''[object Object]''"
    using plain_proto_fields
    by (simp add: computeColumnWidths_spec width_rows_values width_or_100_def)
  from a b show ?thesis by blast
qed

section \<open>Properties of the value matcher\<close>

lemma scan_cols_iff:
  "scan_cols r cs v \<longleftrightarrow> (\<exists>c \<in> set cs. strict_eq (own_value r c) v)"
  by (induction cs) auto

lemma scan_rows_iff: "scan_rows data v \<longleftrightarrow> cell_match data v"
  by (induction data) (auto simp: cell_match_def scan_cols_iff Object_values_def)

lemma hover_iff:
  "list_ex (\<lambda>r. list_ex (\<lambda>x. strict_eq x v) (Object_values r)) data \<longleftrightarrow> cell_match data v"
  by (auto simp: cell_match_def list_ex_iff)

lemma strict_eq_iff:
  "strict_eq a b \<longleftrightarrow>
     (case (a, b) of
        (JObj p s, JObj q s') \<Rightarrow> p = q
      | _ \<Rightarrow> a = b \<and> a \<noteq> JNaN)"
  by (cases a; cases b) auto

lemma selectTable_keeps:
  assumes "selectTable api st n = (st', err)"
  shows "v_tableMap st' = v_tableMap st" and "v_scanned st' = v_scanned st"
    and "v_tables st' = v_tables st"
  using assms
  by (auto simp: selectTable_def highlightTableInList_def Let_def split: option.splits sum.splits)

lemma selectTable_selectable:
  assumes "v_tableMap st n = Some tbl" and "selectable tbl"
  shows "snd (selectTable api st n) = None"
  using assms by (simp add: selectTable_def selectable_def Let_def split: sum.splits)

lemma visited_Cons:
  "visited tm v (e # es) = (if hit tm v e then [e] else e # visited tm v es)"
  by (simp add: visited_def)

lemma visited_no_hit:
  "\<forall>e \<in> set es. \<not> hit tm v e \<Longrightarrow> visited tm v es = es"
  by (induction es) (simp_all add: visited_Cons, simp add: visited_def)

lemma followLoop_result:
  assumes "v_tableMap st = tm" and "\<forall>e \<in> set ts. consistent tm e"
  shows "snd (followLoop api st ts origin v)
         = map_option entry_name (find (hit tm v) (filter (\<lambda>e. entry_name e \<noteq> origin) ts))
       \<and> v_scanned (fst (followLoop api st ts origin v))
         = v_scanned st
           @ map entry_name
               (filter (fetched tm) (visited tm v (filter (\<lambda>e. entry_name e \<noteq> origin) ts)))
       \<and> v_tableMap (fst (followLoop api st ts origin v)) = tm"
  using assms
proof (induction ts arbitrary: st)
  case Nil
  then show ?case by (simp add: visited_def)
next
  case (Cons t ts)
  note tm = Cons.prems(1)
  have cons: "\<forall>e \<in> set ts. consistent tm e" and ct: "consistent tm t"
    using Cons.prems(2) by simp_all
  show ?case
  proof (cases "entry_name t = origin")
    case True
    then show ?thesis using Cons.IH [OF tm cons] by simp
  next
    case other: False
    show ?thesis
    proof (cases "tm (entry_name t)")
      case None
      then have "\<not> hit tm v t" and "\<not> fetched tm t"
        by (simp_all add: hit_def fetched_def)
      then show ?thesis
        using Cons.IH [OF tm cons] other None tm by (simp add: visited_Cons)
    next
      case (Some tbl)
      let ?st1 = "st\<lparr> v_scanned := v_scanned st @ [entry_name t] \<rparr>"
      have tm1: "v_tableMap ?st1 = tm" using tm by simp
      have f: "fetched tm t" using Some by (simp add: fetched_def)
      show ?thesis
      proof (cases "hit tm v t")
        case False
        then have step: "followLoop api st (t # ts) origin v = followLoop api ?st1 ts origin v"
          using other Some tm by (auto simp: hit_def Let_def split: sum.splits)
        show ?thesis
          using Cons.IH [OF tm1 cons] other False f by (simp only: step) (simp add: visited_Cons)
      next
        case True
        then obtain data where d: "getData tbl None (Some 10000) = Inr data" and sc: "scan_rows data v"
          using Some by (auto simp: hit_def split: sum.splits)
        have "selectable tbl" using ct Some d by (simp add: consistent_def)
        then have ok: "snd (selectTable api ?st1 (entry_name t)) = None"
          using Some tm by (intro selectTable_selectable [of _ _ tbl]) simp_all
        obtain st2 where s2: "selectTable api ?st1 (entry_name t) = (st2, None)"
          using ok by (cases "selectTable api ?st1 (entry_name t)") simp
        have k: "v_tableMap st2 = tm" "v_scanned st2 = v_scanned st @ [entry_name t]"
          using selectTable_keeps [OF s2] tm by simp_all
        have step: "followLoop api st (t # ts) origin v = (st2, Some (entry_name t))"
          using other Some tm d sc s2 by (simp add: Let_def)
        show ?thesis
          using other True f k by (simp only: step) (simp add: visited_Cons)
      qed
    qed
  qed
qed

lemma followLoop_None_status:
  "snd (followLoop api st ts origin v) = None \<Longrightarrow>
   v_status (fst (followLoop api st ts origin v)) = ''No matching value found in other tables''"
  by (induction ts arbitrary: st)
     (auto simp: Let_def split: option.splits sum.splits prod.splits if_splits)

lemma followLoop_sound:
  "snd (followLoop api st ts origin v) = Some n \<Longrightarrow>
   \<exists>e \<in> set ts. entry_name e = n \<and> n \<noteq> origin \<and> hit (v_tableMap st) v e"
proof (induction ts arbitrary: st)
  case Nil
  then show ?case by simp
next
  case (Cons t ts)
  have rest: "\<And>st'. v_tableMap st' = v_tableMap st \<Longrightarrow>
      followLoop api st (t # ts) origin v = followLoop api st' ts origin v \<Longrightarrow> ?case"
  proof -
    fix st' assume tm: "v_tableMap st' = v_tableMap st"
      and step: "followLoop api st (t # ts) origin v = followLoop api st' ts origin v"
    have "snd (followLoop api st' ts origin v) = Some n"
      using Cons.prems step by simp
    then show ?case using Cons.IH [of st'] tm by auto
  qed
  show ?case
  proof (cases "entry_name t = origin")
    case True
    then show ?thesis by (intro rest [of st]) simp_all
  next
    case other: False
    show ?thesis
    proof (cases "v_tableMap st (entry_name t)")
      case None
      then show ?thesis using other by (intro rest [of st]) simp_all
    next
      case (Some tbl)
      let ?st1 = "st\<lparr> v_scanned := v_scanned st @ [entry_name t] \<rparr>"
      show ?thesis
      proof (cases "getData tbl None (Some 10000)")
        case (Inl err)
        then show ?thesis using other Some by (intro rest [of ?st1]) (simp_all add: Let_def)
      next
        case (Inr data)
        show ?thesis
        proof (cases "scan_rows data v")
          case False
          then show ?thesis
            using other Some Inr by (intro rest [of ?st1]) (simp_all add: Let_def)
        next
          case True
          then have h: "hit (v_tableMap st) v t"
            using Some Inr by (simp add: hit_def)
          obtain st2 err where s2: "selectTable api ?st1 (entry_name t) = (st2, err)"
            by (cases "selectTable api ?st1 (entry_name t)")
          show ?thesis
          proof (cases err)
            case None
            then have "followLoop api st (t # ts) origin v = (st2, Some (entry_name t))"
              using other Some Inr True s2 by (simp add: Let_def)
            then have "n = entry_name t" using Cons.prems by simp
            then show ?thesis using other h by auto
          next
            case (Some e)
            have "v_tableMap st2 = v_tableMap st"
              using selectTable_keeps(1) [OF s2] by simp
            then show ?thesis
              using other \<open>v_tableMap st (entry_name t) = Some tbl\<close> Inr True s2 Some
              by (intro rest [of st2]) (simp_all add: Let_def)
          qed
        qed
      qed
    qed
  qed
qed

lemma mark_node_rowClass:
  "mark_node (st\<lparr> v_rowClass := rc \<rparr>) node origin v = mark_node st node origin v"
  by (simp add: mark_node_def)

lemma clear_classes_fields:
  "v_tableMap (clear_classes st nodes) = v_tableMap st"
  "v_rowClass (clear_classes st nodes) n
     = (if n \<in> entry_name ` set nodes then Some [] else v_rowClass st n)"
  by (induction nodes arbitrary: st) auto

lemma mark_node_tableMap:
  "v_tableMap st' = v_tableMap st \<Longrightarrow> mark_node st' node origin v = mark_node st node origin v"
  by (simp add: mark_node_def)

lemma mark_nodes_rowClass:
  "v_rowClass (mark_nodes st nodes origin v) n
     = (if \<exists>node \<in> set nodes. entry_name node = n \<and> mark_node st node origin v
        then Some ''referenced-table'' else v_rowClass st n)"
  by (induction nodes arbitrary: st) (auto simp: mark_node_rowClass)

lemma mark_node_iff:
  "mark_node st node origin v \<longleftrightarrow>
     entry_name node \<noteq> origin
     \<and> (\<exists>tbl rows. v_tableMap st (entry_name node) = Some tbl
           \<and> getData tbl None (Some 200) = Inr rows \<and> cell_match rows v)"
  by (auto simp: mark_node_def hover_iff split: option.splits sum.splits)

lemma hit_iff:
  "hit tm v e \<longleftrightarrow>
     (\<exists>tbl rows. tm (entry_name e) = Some tbl
        \<and> getData tbl None (Some 10000) = Inr rows \<and> cell_match rows v)"
  by (auto simp: hit_def scan_rows_iff split: option.splits sum.splits)

text \<open>
  Both paths of the matcher decide a cell by \<open>===\<close>. The row scan of the click path and
  the test of the hover path hold exactly when some cell of some fetched row is strictly
  equal to the value; a table that a click reports is another table whose first 10000
  rows hold such a cell; the hover marks a listed table exactly when it is another table
  whose first 200 rows hold such a cell. Strict equality is equality of type and value
  (identity for objects, and never for NaN): the text \<open>"42"\<close> is not equal to the number
  42, the number 42 is.
\<close>

lemma value_match_strict:
  "(scan_rows data v \<longleftrightarrow> (\<exists>r \<in> set data. \<exists>x \<in> set (Object_values r). strict_eq x v))
   \<and> (list_ex (\<lambda>r. list_ex (\<lambda>x. strict_eq x v) (Object_values r)) data
        \<longleftrightarrow> (\<exists>r \<in> set data. \<exists>x \<in> set (Object_values r). strict_eq x v))
   \<and> (snd (followValue api st origin col v) = Some n \<longrightarrow>
         n \<noteq> origin
         \<and> (\<exists>tbl rows. v_tableMap st n = Some tbl \<and> getData tbl None (Some 10000) = Inr rows
               \<and> cell_match rows v))
   \<and> (node \<in> set nodes \<longrightarrow>
         (v_rowClass (highlightTablesReferencingValue (Some nodes) st v origin col)
            (entry_name node) = Some ''referenced-table''
          \<longleftrightarrow> entry_name node \<noteq> origin
              \<and> (\<exists>tbl rows. v_tableMap st (entry_name node) = Some tbl
                    \<and> getData tbl None (Some 200) = Inr rows \<and> cell_match rows v)))
   \<and> (strict_eq a b \<longleftrightarrow>
         (case (a, b) of (JObj p s, JObj q s') \<Rightarrow> p = q | _ \<Rightarrow> a = b \<and> a \<noteq> JNaN))
   \<and> \<not> strict_eq (JStr ''42'') (JNum 42) \<and> strict_eq (JNum 42) (JNum 42)"
proof -
  have click: "scan_rows data v \<longleftrightarrow> (\<exists>r \<in> set data. \<exists>x \<in> set (Object_values r). strict_eq x v)"
    using scan_rows_iff [of data v] by (simp add: cell_match_def)
  have hover: "list_ex (\<lambda>r. list_ex (\<lambda>x. strict_eq x v) (Object_values r)) data
        \<longleftrightarrow> (\<exists>r \<in> set data. \<exists>x \<in> set (Object_values r). strict_eq x v)"
    using hover_iff [of v data] by (simp add: cell_match_def)
  have follow: "snd (followValue api st origin col v) = Some n \<longrightarrow>
         n \<noteq> origin
         \<and> (\<exists>tbl rows. v_tableMap st n = Some tbl \<and> getData tbl None (Some 10000) = Inr rows
               \<and> cell_match rows v)"
  proof
    assume "snd (followValue api st origin col v) = Some n"
    then have "\<exists>e \<in> set (v_tables st). entry_name e = n \<and> n \<noteq> origin \<and> hit (v_tableMap st) v e"
      using followLoop_sound
        [of api "st\<lparr> v_status := ''Searching referenced tables...'', v_scanned := [] \<rparr>"
            "v_tables st" origin v n]
      by (simp add: followValue_def)
    then show "n \<noteq> origin
         \<and> (\<exists>tbl rows. v_tableMap st n = Some tbl \<and> getData tbl None (Some 10000) = Inr rows
               \<and> cell_match rows v)"
      by (auto simp: hit_iff)
  qed
  have mark: "node \<in> set nodes \<longrightarrow>
         (v_rowClass (highlightTablesReferencingValue (Some nodes) st v origin col)
            (entry_name node) = Some ''referenced-table''
          \<longleftrightarrow> entry_name node \<noteq> origin
              \<and> (\<exists>tbl rows. v_tableMap st (entry_name node) = Some tbl
                    \<and> getData tbl None (Some 200) = Inr rows \<and> cell_match rows v))"
  proof
    assume nd: "node \<in> set nodes"
    let ?st0 = "clear_classes st nodes"
    have m: "\<And>x. mark_node ?st0 x origin v = mark_node st x origin v"
      by (rule mark_node_tableMap) (simp add: clear_classes_fields)
    have "v_rowClass (highlightTablesReferencingValue (Some nodes) st v origin col) (entry_name node)
          = (if \<exists>x \<in> set nodes. entry_name x = entry_name node \<and> mark_node st x origin v
             then Some ''referenced-table'' else Some [])"
      using nd by (simp add: highlightTablesReferencingValue_def mark_nodes_rowClass m
          clear_classes_fields)
    moreover have "(\<exists>x \<in> set nodes. entry_name x = entry_name node \<and> mark_node st x origin v)
          \<longleftrightarrow> mark_node st node origin v"
      using nd by (auto simp: mark_node_def)
    ultimately show "v_rowClass (highlightTablesReferencingValue (Some nodes) st v origin col)
            (entry_name node) = Some ''referenced-table''
          \<longleftrightarrow> entry_name node \<noteq> origin
              \<and> (\<exists>tbl rows. v_tableMap st (entry_name node) = Some tbl
                    \<and> getData tbl None (Some 200) = Inr rows \<and> cell_match rows v)"
      using mark_node_iff [of st node origin v] by simp
  qed
  have strict: "strict_eq a b \<longleftrightarrow>
         (case (a, b) of (JObj p s, JObj q s') \<Rightarrow> p = q | _ \<Rightarrow> a = b \<and> a \<noteq> JNaN)"
    by (rule strict_eq_iff)
  have scen: "\<not> strict_eq (JStr ''42'') (JNum 42)" "strict_eq (JNum 42) (JNum 42)"
    by simp_all
  from click hover follow mark strict scen show ?thesis by blast
qed

lemma match_state_follow:
  "followValue True match_state ''A'' ''Id'' (JNum 42)
   = (fst (followValue True match_state ''A'' ''Id'' (JNum 42)), Some ''C'')"
  "v_scanned (fst (followValue True match_state ''A'' ''Id'' (JNum 42))) = [''B'', ''C'']"
  "v_currentTable (fst (followValue True match_state ''A'' ''Id'' (JNum 42))) = ''C''"
  by (simp_all add: followValue_def match_state_def match_tables_def example_vstate_def
      table_of_def slice_rows_def Object_keys_def own_value_def selectTable_def
      highlightTableInList_def Let_def)

lemma value_match_strict_example:
  "snd (followValue True match_state ''A'' ''Id'' (JNum 42)) = Some ''C''
   \<and> (\<exists>tbl rows. v_tableMap match_state ''C'' = Some tbl
         \<and> getData tbl None (Some 10000) = Inr rows \<and> cell_match rows (JNum 42))
   \<and> \<lparr> entry_name = ''B'', entry_rowCount = 1 \<rparr> \<in> set (v_tables match_state)
   \<and> v_rowClass (highlightTablesReferencingValue (Some (v_tables match_state)) match_state
        (JNum 42) ''A'' ''Id'') ''B'' \<noteq> Some ''referenced-table''
   \<and> \<not> scan_rows [[(''Code'', JStr ''42'')]] (JNum 42)
   \<and> scan_rows [[(''Ref'', JNum 42)]] (JNum 42)"
proof -
  have f: "snd (followValue True match_state ''A'' ''Id'' (JNum 42)) = Some ''C''"
    using match_state_follow(1) by (metis snd_conv)
  have b: "\<lparr> entry_name = ''B'', entry_rowCount = 1 \<rparr> \<in> set (v_tables match_state)"
    by (simp add: match_state_def match_tables_def)
  have nb: "\<not> (\<exists>tbl rows. v_tableMap match_state ''B'' = Some tbl
         \<and> getData tbl None (Some 200) = Inr rows \<and> cell_match rows (JNum 42))"
    by (simp add: match_state_def match_tables_def table_of_def slice_rows_def cell_match_def
        Object_values_def Object_keys_def own_value_def)
  have s: "\<not> scan_rows [[(''Code'', JStr ''42'')]] (JNum 42)"
    "scan_rows [[(''Ref'', JNum 42)]] (JNum 42)"
    by (simp_all add: Object_keys_def own_value_def)
  show ?thesis
    using value_match_strict
      [of "[]" "JNum 42" True match_state "''A''" "''Id''" "''C''"
          "\<lparr> entry_name = ''B'', entry_rowCount = 1 \<rparr>" "v_tables match_state"]
      f b nb s
    by simp
qed

text \<open>
  On a consistent snapshot (a cached table whose scan fetch succeeds can also be
  displayed) the click scan reports the first of the other tables, in catalog order,
  that holds a matching cell; the tables whose rows it fetches are the cached ones among
  the other tables up to and including that table, and none after it; it reports none
  exactly when no other table holds a match, having then fetched every cached other
  table and set the status to no match; and the report is the same in every state with
  the same catalog and the same handles.
\<close>

lemma followValue_first_match:
  assumes "\<forall>e \<in> set (v_tables st). consistent (v_tableMap st) e"
  shows "snd (followValue api st origin col v)
           = map_option entry_name
               (find (hit (v_tableMap st) v) (filter (\<lambda>e. entry_name e \<noteq> origin) (v_tables st)))
       \<and> v_scanned (fst (followValue api st origin col v))
           = map entry_name
               (filter (fetched (v_tableMap st))
                  (visited (v_tableMap st) v (filter (\<lambda>e. entry_name e \<noteq> origin) (v_tables st))))
       \<and> (snd (followValue api st origin col v) = None
            \<longleftrightarrow> (\<forall>e \<in> set (v_tables st). entry_name e \<noteq> origin \<longrightarrow> \<not> hit (v_tableMap st) v e))
       \<and> (snd (followValue api st origin col v) = None \<longrightarrow>
             v_scanned (fst (followValue api st origin col v))
               = map entry_name
                   (filter (fetched (v_tableMap st))
                      (filter (\<lambda>e. entry_name e \<noteq> origin) (v_tables st)))
           \<and> v_status (fst (followValue api st origin col v))
               = ''No matching value found in other tables'')
       \<and> (\<forall>api' st' col'.
             v_tables st' = v_tables st \<and> v_tableMap st' = v_tableMap st \<longrightarrow>
             snd (followValue api' st' origin col' v) = snd (followValue api st origin col v))"
proof -
  let ?tm = "v_tableMap st"
  let ?others = "filter (\<lambda>e. entry_name e \<noteq> origin) (v_tables st)"
  have gen: "\<And>api' (st' :: vstate) col'. v_tables st' = v_tables st \<Longrightarrow> v_tableMap st' = ?tm \<Longrightarrow>
      snd (followValue api' st' origin col' v) = map_option entry_name (find (hit ?tm v) ?others)
      \<and> v_scanned (fst (followValue api' st' origin col' v))
           = map entry_name (filter (fetched ?tm) (visited ?tm v ?others))"
  proof -
    fix api' and st' :: vstate and col'
    assume t: "v_tables st' = v_tables st" and m: "v_tableMap st' = ?tm"
    let ?s0 = "st'\<lparr> v_status := ''Searching referenced tables...'', v_scanned := [] \<rparr>"
    have "v_tableMap ?s0 = ?tm" using m by simp
    then show "snd (followValue api' st' origin col' v) = map_option entry_name (find (hit ?tm v) ?others)
      \<and> v_scanned (fst (followValue api' st' origin col' v))
           = map entry_name (filter (fetched ?tm) (visited ?tm v ?others))"
      using followLoop_result [of ?s0 ?tm "v_tables st" api origin v] assms t
        followLoop_result [of ?s0 ?tm "v_tables st" api' origin v]
      by (simp add: followValue_def)
  qed
  have r: "snd (followValue api st origin col v) = map_option entry_name (find (hit ?tm v) ?others)"
    and sc: "v_scanned (fst (followValue api st origin col v))
           = map entry_name (filter (fetched ?tm) (visited ?tm v ?others))"
    using gen [of st api col] by simp_all
  have none: "snd (followValue api st origin col v) = None
            \<longleftrightarrow> (\<forall>e \<in> set (v_tables st). entry_name e \<noteq> origin \<longrightarrow> \<not> hit ?tm v e)"
    using r by (auto simp: find_None_iff)
  have all: "snd (followValue api st origin col v) = None \<longrightarrow>
             v_scanned (fst (followValue api st origin col v))
               = map entry_name (filter (fetched ?tm) ?others)
           \<and> v_status (fst (followValue api st origin col v))
               = ''No matching value found in other tables''"
  proof
    assume n: "snd (followValue api st origin col v) = None"
    then have "\<forall>e \<in> set ?others. \<not> hit ?tm v e" using none by simp
    then have "visited ?tm v ?others = ?others"
      by (rule visited_no_hit)
    moreover have "v_status (fst (followValue api st origin col v))
               = ''No matching value found in other tables''"
      using n followLoop_None_status
        [of api "st\<lparr> v_status := ''Searching referenced tables...'', v_scanned := [] \<rparr>"
            "v_tables st" origin v]
      by (simp add: followValue_def)
    ultimately show "v_scanned (fst (followValue api st origin col v))
               = map entry_name (filter (fetched ?tm) ?others)
           \<and> v_status (fst (followValue api st origin col v))
               = ''No matching value found in other tables''"
      using sc by simp
  qed
  have det: "\<forall>api' st' col'.
             v_tables st' = v_tables st \<and> v_tableMap st' = v_tableMap st \<longrightarrow>
             snd (followValue api' st' origin col' v) = snd (followValue api st origin col v)"
    using gen r by simp
  from r sc none all det show ?thesis by blast
qed

lemma followValue_first_match_example:
  "list_all (consistent (v_tableMap match_state)) (v_tables match_state)
   \<and> snd (followValue True match_state ''A'' ''Id'' (JNum 42)) = Some ''C''
   \<and> v_scanned (fst (followValue True match_state ''A'' ''Id'' (JNum 42))) = [''B'', ''C'']
   \<and> snd (followValue True match_state ''A'' ''Id'' (JStr ''nowhere'')) = None
   \<and> v_scanned (fst (followValue True match_state ''A'' ''Id'' (JStr ''nowhere'')))
       = [''B'', ''C'', ''D'']"
proof -
  have c: "\<forall>e \<in> set (v_tables match_state). consistent (v_tableMap match_state) e"
    by (simp add: match_state_def match_tables_def consistent_def selectable_def table_of_def
        slice_rows_def)
  have h: "\<not> hit (v_tableMap match_state) (JNum 42) \<lparr> entry_name = ''B'', entry_rowCount = 1 \<rparr>"
    "hit (v_tableMap match_state) (JNum 42) \<lparr> entry_name = ''C'', entry_rowCount = 1 \<rparr>"
    "\<And>n. \<not> hit (v_tableMap match_state) (JStr ''nowhere'') \<lparr> entry_name = n, entry_rowCount = 1 \<rparr>"
    by (simp_all add: match_state_def match_tables_def hit_def table_of_def slice_rows_def
        Object_keys_def own_value_def)
  have t: "v_tables match_state
      = [\<lparr> entry_name = ''A'', entry_rowCount = 1 \<rparr>, \<lparr> entry_name = ''B'', entry_rowCount = 1 \<rparr>,
         \<lparr> entry_name = ''C'', entry_rowCount = 1 \<rparr>, \<lparr> entry_name = ''D'', entry_rowCount = 1 \<rparr>]"
    by (simp add: match_state_def match_tables_def)
  have f: "\<And>n. n \<in> {''A'', ''B'', ''C'', ''D''} \<Longrightarrow>
      fetched (v_tableMap match_state) \<lparr> entry_name = n, entry_rowCount = 1 \<rparr>"
    by (auto simp: match_state_def match_tables_def fetched_def)
  show ?thesis
    using followValue_first_match [OF c, of True "''A''" "''Id''" "JNum 42"]
      followValue_first_match [OF c, of True "''A''" "''Id''" "JStr ''nowhere''"]
      c h f
    by (simp add: t visited_def list_all_iff)
qed




section \<open>Properties of the persistence adapter\<close>

lemma of_char_lt_256: "(of_char c :: nat) < 256"
  using of_char_mod_256 [of c, where ?'a = nat]
  by (metis mod_less_divisor zero_less_numeral)

lemma b64_index_char: "n < 64 \<Longrightarrow> b64_index (b64_char n) = Some n"
  by (auto simp: b64_index_def b64_char_def Let_def)

lemma b64_char_not_pad: "b64_char n \<noteq> CHR ''=''"
proof
  assume "b64_char n = CHR ''=''"
  then have "(of_char (b64_char n) :: nat) = 61" by simp
  then show False
    by (auto simp: b64_char_def split: if_splits)
qed

lemma b64_char_not_space: "\<not> ascii_whitespace (b64_char n)"
  by (auto simp: ascii_whitespace_def b64_char_def)

lemma sextet_bounds:
  fixes x y z :: nat
  assumes "x < 256" and "y < 256" and "z < 256"
  shows "x div 4 < 64" and "(x mod 4) * 16 < 64" and "(x mod 4) * 16 + y div 16 < 64"
    and "(y mod 16) * 4 < 64" and "(y mod 16) * 4 + z div 64 < 64" and "z mod 64 < 64"
  using assms by arith+

lemma sextets_bound: "\<forall>k \<in> set (sextets s). k < 64"
proof (induction s rule: sextets.induct)
  case 1
  then show ?case by simp
next
  case (2 a)
  show ?case
    using sextet_bounds [of "of_char a" "of_char a" "of_char a", OF of_char_lt_256 of_char_lt_256 of_char_lt_256]
    by (simp add: Let_def)
next
  case (3 a b)
  show ?case
    using sextet_bounds [of "of_char a" "of_char b" "of_char b", OF of_char_lt_256 of_char_lt_256 of_char_lt_256]
    by (simp add: Let_def)
next
  case (4 a b c rest)
  show ?case
    using 4 sextet_bounds [of "of_char a" "of_char b" "of_char c", OF of_char_lt_256 of_char_lt_256 of_char_lt_256]
    by (simp add: Let_def)
qed

lemma those_indices_chars:
  "\<forall>k \<in> set ks. k < 64 \<Longrightarrow> those_indices (map b64_char ks) = Some ks"
  by (induction ks) (simp_all add: b64_index_char)

lemma octets_one:
  fixes x :: nat
  shows "x < 256 \<Longrightarrow> octets [x div 4, (x mod 4) * 16] = [x]"
  by simp

lemma octet_first:
  fixes x y :: nat
  assumes "x < 256" and "y < 256"
  shows "x div 4 * 4 + ((x mod 4) * 16 + y div 16) div 16 = x"
proof -
  have "y div 16 < 16" using assms(2) by simp
  then have "((x mod 4) * 16 + y div 16) div 16 = x mod 4" by simp
  then show ?thesis by simp
qed

lemma octet_second_short:
  fixes x y :: nat
  assumes "y < 256"
  shows "(((x mod 4) * 16 + y div 16) mod 16) * 16 + ((y mod 16) * 4) div 4 = y"
proof -
  have "y div 16 < 16" using assms by simp
  then have "((x mod 4) * 16 + y div 16) mod 16 = y div 16" by simp
  then show ?thesis by simp
qed

lemma octet_second:
  fixes x y z :: nat
  assumes "y < 256" and "z < 256"
  shows "(((x mod 4) * 16 + y div 16) mod 16) * 16 + ((y mod 16) * 4 + z div 64) div 4 = y"
proof -
  have "y div 16 < 16" using assms by simp
  then have a: "((x mod 4) * 16 + y div 16) mod 16 = y div 16" by simp
  have "z div 64 < 4" using assms by simp
  then have b: "((y mod 16) * 4 + z div 64) div 4 = y mod 16" by simp
  show ?thesis by (simp only: a b) simp
qed

lemma octet_third:
  fixes y z :: nat
  assumes "z < 256"
  shows "(((y mod 16) * 4 + z div 64) mod 4) * 64 + z mod 64 = z"
proof -
  have "z div 64 < 4" using assms by simp
  then have b: "((y mod 16) * 4 + z div 64) mod 4 = z div 64" by simp
  show ?thesis by (simp only: b) simp
qed

lemma octets_two:
  fixes x y :: nat
  assumes "x < 256" and "y < 256"
  shows "octets [x div 4, (x mod 4) * 16 + y div 16, (y mod 16) * 4] = [x, y]"
  using octet_first [OF assms] octet_second_short [OF assms(2), of x] by (simp only: octets.simps)

lemma octets_three:
  fixes x y z :: nat
  assumes "x < 256" and "y < 256" and "z < 256"
  shows "octets (x div 4 # ((x mod 4) * 16 + y div 16) # ((y mod 16) * 4 + z div 64)
                  # (z mod 64) # rest)
         = x # y # z # octets rest"
  using octet_first [OF assms(1,2)] octet_second [OF assms(2,3), of x] octet_third [OF assms(3), of y]
  by (simp only: octets.simps append_Cons append_Nil)

lemma octets_sextets: "octets (sextets s) = map of_char s"
proof (induction s rule: sextets.induct)
  case 1
  then show ?case by simp
next
  case (2 a)
  show ?case
    using octets_one [of "of_char a", OF of_char_lt_256]
    by (simp only: sextets.simps Let_def list.map)
next
  case (3 a b)
  show ?case
    using octets_two [of "of_char a" "of_char b", OF of_char_lt_256 of_char_lt_256]
    by (simp only: sextets.simps Let_def list.map)
next
  case (4 a b c rest)
  show ?case
    using 4 octets_three [of "of_char a" "of_char b" "of_char c" "sextets rest", OF of_char_lt_256 of_char_lt_256 of_char_lt_256]
    by (simp only: sextets.simps Let_def list.map append_Cons append_Nil)
qed

lemma length_sextets:
  "length (sextets s) = 4 * (length s div 3) + (if length s mod 3 = 0 then 0 else length s mod 3 + 1)"
  by (induction s rule: sextets.induct) (simp_all add: Let_def)

lemma sextets_Nil_iff: "sextets s = [] \<longleftrightarrow> s = []"
  by (induction s rule: sextets.induct) (simp_all add: Let_def)

lemma strip_padding_body:
  assumes "(length ks + p) mod 4 = 0" and "p \<le> 2"
  shows "strip_padding (map b64_char ks @ replicate p (CHR ''='')) = map b64_char ks"
proof -
  have nl: "ks \<noteq> [] \<Longrightarrow> last (map b64_char ks) \<noteq> CHR ''=''"
    by (simp add: last_map b64_char_not_pad)
  consider "p = 0" | "p = 1" | "p = 2" using assms(2) by arith
  then show ?thesis
  proof cases
    case 1
    then show ?thesis using nl by (cases "ks = []") (simp_all add: strip_padding_def)
  next
    case 2
    then have "replicate p (CHR ''='') = [CHR ''='']" by simp
    then show ?thesis
      using assms(1) 2 nl by (cases "ks = []") (simp_all add: strip_padding_def)
  next
    case 3
    then have r: "replicate p (CHR ''='') = [CHR ''='', CHR ''='']"
      by (simp add: numeral_2_eq_2)
    have b: "butlast (map b64_char ks @ [CHR ''='', CHR ''='']) = map b64_char ks @ [CHR ''='']"
      by (simp add: butlast_append)
    have l: "length (map b64_char ks @ [CHR ''='', CHR ''='']) mod 4 = 0"
      using assms(1) 3 by simp
    show ?thesis
      unfolding r using l by (simp add: strip_padding_def b Let_def)
  qed
qed

lemma pad_arith:
  fixes q :: nat
  shows "(4 * q + 0 + 0) mod 4 = 0" and "(4 * q + 2 + 2) mod 4 = 0" and "(4 * q + 3 + 1) mod 4 = 0"
    and "(4 * q + 0) mod 4 \<noteq> 1" and "(4 * q + 2) mod 4 \<noteq> 1" and "(4 * q + 3) mod 4 \<noteq> 1"
  by presburger+

lemma sextets_padding:
  "(length (sextets s) + (3 - length s mod 3) mod 3) mod 4 = 0
   \<and> (3 - length s mod 3) mod 3 \<le> 2 \<and> length (sextets s) mod 4 \<noteq> 1"
proof -
  let ?q = "length s div 3"
  have "length s mod 3 < 3" by simp
  then consider "length s mod 3 = 0" | "length s mod 3 = 1" | "length s mod 3 = 2"
    by linarith
  then show ?thesis
  proof cases
    case 1
    then have "length (sextets s) = 4 * ?q + 0" and "(3 - length s mod 3) mod 3 = 0"
      by (simp_all add: length_sextets)
    then show ?thesis using pad_arith(1,4) [of ?q] by (simp only:) simp
  next
    case 2
    then have "length (sextets s) = 4 * ?q + 2" and "(3 - length s mod 3) mod 3 = 2"
      by (simp_all add: length_sextets)
    then show ?thesis using pad_arith(2,5) [of ?q] by (simp only:) simp
  next
    case 3
    then have "length (sextets s) = 4 * ?q + 3" and "(3 - length s mod 3) mod 3 = 1"
      by (simp_all add: length_sextets)
    then show ?thesis using pad_arith(3,6) [of ?q] by (simp only:) simp
  qed
qed

lemma pad_not_space: "\<not> ascii_whitespace (CHR ''='')"
  by (simp add: ascii_whitespace_def)

lemma btoa_no_space: "filter (\<lambda>c. \<not> ascii_whitespace c) (btoa s) = btoa s"
proof -
  have "\<forall>c \<in> set (map b64_char (sextets s)). \<not> ascii_whitespace c"
    by (simp add: b64_char_not_space)
  moreover have "\<forall>c \<in> set (replicate ((3 - length s mod 3) mod 3) (CHR ''='')). \<not> ascii_whitespace c"
    using pad_not_space by (simp only: set_replicate_conv_if) simp
  ultimately have "\<forall>c \<in> set (btoa s). \<not> ascii_whitespace c"
    unfolding btoa_def by (simp only: set_append) blast
  then show ?thesis by (rule filter_True)
qed

lemma atob_btoa: "atob (btoa s) = Inr s"
proof -
  let ?ks = "sextets s"
  let ?p = "(3 - length s mod 3) mod 3"
  have len: "(length ?ks + ?p) mod 4 = 0" and p: "?p \<le> 2" and l1: "length ?ks mod 4 \<noteq> 1"
    using sextets_padding [of s] by blast+
  have st: "strip_padding (btoa s) = map b64_char ?ks"
    unfolding btoa_def using len p by (rule strip_padding_body)
  have ti: "those_indices (map b64_char ?ks) = Some ?ks"
    using sextets_bound by (rule those_indices_chars)
  have oc: "map char_of (octets ?ks) = s"
    by (simp add: octets_sextets comp_def)
  have "atob (btoa s) = (if length (map b64_char ?ks) mod 4 = 1 then Inl InvalidCharacterError
                          else Inr (map char_of (octets ?ks)))"
    by (simp only: atob_def btoa_no_space st ti Let_def option.case)
  then show ?thesis using l1 oc by simp
qed

lemma fill_bytes_map:
  "i \<le> length s \<Longrightarrow> length bs = length s \<Longrightarrow>
   fill_bytes s i bs = take i bs @ map (\<lambda>c. word_of_nat (of_char c)) (drop i s)"
proof (induction s i bs rule: fill_bytes.induct)
  case (1 s i bs)
  show ?case
  proof (cases "i < length s")
    case False
    then show ?thesis using "1.prems" by (simp add: fill_bytes.simps [of s i bs])
  next
    case True
    let ?bs' = "bs[i := word_of_nat (of_char (s ! i))]"
    have ih: "fill_bytes s (i + 1) ?bs'
            = take (i + 1) ?bs' @ map (\<lambda>c. word_of_nat (of_char c)) (drop (i + 1) s)"
      using "1.IH" [OF True] True "1.prems" by simp
    have t: "take (i + 1) ?bs' = take i bs @ [word_of_nat (of_char (s ! i))]"
      using True "1.prems" by (simp add: take_Suc_conv_app_nth)
    have d: "drop i s = s ! i # drop (i + 1) s"
      using True by (simp add: Cons_nth_drop_Suc)
    show ?thesis
      using True ih by (simp only: fill_bytes.simps [of s i bs] t d if_True) simp
  qed
qed

lemma byte_of_fromCharCode:
  "map (\<lambda>c. word_of_nat (of_char c)) (fromCharCode bs) = (bs :: bytes)"
proof -
  have "\<And>b :: 8 word. (word_of_nat (of_char (char_of (unat b))) :: 8 word) = b"
  proof -
    fix b :: "8 word"
    have "unat b < 256" using unsigned_less [of b, where ?'a = nat] by simp
    then show "(word_of_nat (of_char (char_of (unat b))) :: 8 word) = b" by simp
  qed
  then show ?thesis by (simp add: fromCharCode_def comp_def)
qed

lemma base64_roundtrip:
  "base64ToArrayBuffer (btoa (fromCharCode bs)) = Inr bs"
  using fill_bytes_map [of 0 "fromCharCode bs" "replicate (length (fromCharCode bs)) 0"]
  by (simp add: base64ToArrayBuffer_def atob_btoa byte_of_fromCharCode)

lemma btoa_Nil_iff: "btoa s = [] \<longleftrightarrow> s = []"
  by (auto simp: btoa_def sextets_Nil_iff)

lemma indexOf_first:
  "c \<notin> set p \<Longrightarrow> indexOf (p @ c # rest) c = int (length p)"
  by (induction p) (auto simp: Let_def)

lemma slice_after:
  assumes "c \<notin> set p"
  shows "slice_from (p @ c # rest) (indexOf (p @ c # rest) c + 1) = rest"
proof -
  have "nat (int (length p) + 1) = Suc (length p)" by simp
  then show ?thesis
    by (simp add: indexOf_first [OF assms] slice_from_def)
qed

lemma fileToBase64_text:
  assumes "CHR '','' \<notin> set (file_type f)"
  shows "slice_from (readAsDataURL f) (indexOf (readAsDataURL f) (CHR '','') + 1)
       = btoa (fromCharCode (file_bytes f))"
proof -
  let ?p = "''data:'' @ file_type f @ '';base64''"
  have u: "readAsDataURL f = ?p @ CHR '','' # btoa (fromCharCode (file_bytes f))"
    by (simp add: readAsDataURL_def)
  have "CHR '','' \<notin> set ?p" using assms by simp
  then show ?thesis
    unfolding u by (rule slice_after)
qed

lemma saveFile_outer_ok:
  "saveFile_outer ev k st f = (Inr backend, st') \<Longrightarrow>
   backend = ''indexedDB'' \<and> st' = st\<lparr> idb_files := Some (f, file_name f) \<rparr>"
  by (auto simp: saveFile_outer_def idbSaveFile_def split: option.splits)

lemma saveFile_inner_ok:
  "saveFile_inner ev err st f = (Inr backend, st') \<Longrightarrow>
   backend = ''indexedDB'' \<and> st' = st\<lparr> idb_files := Some (f, file_name f) \<rparr>"
  by (auto simp: saveFile_inner_def idbSaveFile_def dest: saveFile_outer_ok
      split: option.splits if_splits)

lemma load_from_idb:
  assumes "localStorage st ''mdb-base64'' = None \<or> localStorage st ''mdb-base64'' = Some []"
    and "idb_files st = Some (f, n)" and "idb_get_fault ev = None" and "\<not> blob_fault ev"
  shows "loadStoredFile ev st = Inr (Some (file_bytes f, Some n))"
  using assms by (auto simp: loadStoredFile_def idbLoadFile_def Let_def)

lemma load_from_fast:
  assumes "localStorage st ''mdb-base64'' = Some (btoa (fromCharCode bs))" and "bs \<noteq> []"
  shows "loadStoredFile ev st = Inr (Some (bs, localStorage st ''mdb-name''))"
proof -
  have "btoa (fromCharCode bs) \<noteq> []"
    using assms(2) by (simp add: btoa_Nil_iff fromCharCode_def)
  then show ?thesis
    using assms(1) by (simp add: loadStoredFile_def Let_def base64_roundtrip)
qed

text \<open>
  Claim C1, amended. For every file whose media type holds no comma (as media types do
  not), a save that succeeds is undone by restore: after a save into the fast store
  restore returns the bytes of the file when the file has at least one byte; after a
  save into the object store it returns them, for an empty file too, provided the fast
  store held no text of an earlier file, which restore would prefer, and the object
  store can be read.
\<close>

theorem save_restore_roundtrip:
  assumes "saveFile ev st f = (Inr backend, st')"
    and "CHR '','' \<notin> set (file_type f)"
    and "backend = ''localStorage'' \<longrightarrow> file_bytes f \<noteq> []"
    and "backend = ''indexedDB'' \<longrightarrow>
           (localStorage st ''mdb-base64'' = None \<or> localStorage st ''mdb-base64'' = Some [])
           \<and> idb_get_fault ev' = None \<and> \<not> blob_fault ev'"
  shows "(backend = ''localStorage'' \<or> backend = ''indexedDB'')
       \<and> (\<exists>nm. loadStoredFile ev' st' = Inr (Some (file_bytes f, nm)))"
proof (cases "fileToBase64 ev f")
  case (Inl err)
  then have "saveFile_outer ev 0 st f = (Inr backend, st')"
    using assms(1) by (simp add: saveFile_def)
  then have b: "backend = ''indexedDB''" and s: "st' = st\<lparr> idb_files := Some (f, file_name f) \<rparr>"
    using saveFile_outer_ok by blast+
  show ?thesis
    using b assms(4) load_from_idb [of st' f "file_name f" ev'] by (simp add: s)
next
  case (Inr b64)
  then have b64: "b64 = btoa (fromCharCode (file_bytes f))"
    using fileToBase64_text [OF assms(2)]
    by (auto simp: fileToBase64_def Let_def split: option.splits)
  show ?thesis
  proof (cases "setItem ev st ''mdb-base64'' b64")
    case (Inl err)
    then have "saveFile_inner ev err st f = (Inr backend, st')"
      using assms(1) Inr by (simp add: saveFile_def)
    then have b: "backend = ''indexedDB''" and s: "st' = st\<lparr> idb_files := Some (f, file_name f) \<rparr>"
      using saveFile_inner_ok by blast+
    show ?thesis
      using b assms(4) load_from_idb [of st' f "file_name f" ev'] by (simp add: s)
  next
    case st1: (Inr st1)
    then have l1: "localStorage st1 ''mdb-base64'' = Some (btoa (fromCharCode (file_bytes f)))"
      by (auto simp: setItem_def b64 split: option.splits)
    show ?thesis
    proof (cases "setItem ev st1 ''mdb-name'' (file_name f)")
      case (Inl err)
      then have "saveFile_inner ev err st1 f = (Inr backend, st')"
        using assms(1) Inr st1 by (simp add: saveFile_def)
      then have b: "backend = ''indexedDB''"
        and s: "st' = st1\<lparr> idb_files := Some (f, file_name f) \<rparr>"
        using saveFile_inner_ok by blast+
      have l: "localStorage st' ''mdb-base64'' = Some (btoa (fromCharCode (file_bytes f)))"
        using l1 by (simp add: s)
      show ?thesis
      proof (cases "file_bytes f = []")
        case True
        then have "localStorage st' ''mdb-base64'' = Some []"
          using l by (simp add: btoa_Nil_iff fromCharCode_def)
        moreover have "idb_files st' = Some (f, file_name f)"
          by (simp add: s)
        ultimately show ?thesis
          using b assms(4) load_from_idb [of st' f "file_name f" ev'] by simp
      next
        case False
        then show ?thesis
          using b l load_from_fast [of st' "file_bytes f" ev'] by simp
      qed
    next
      case st2: (Inr st2)
      then have b: "backend = ''localStorage''" and s: "st' = st2"
        using assms(1) Inr st1 by (simp_all add: saveFile_def)
      have n: "file_bytes f \<noteq> []"
        using b assms(3) by simp
      have "localStorage st2 ''mdb-base64'' = Some (btoa (fromCharCode (file_bytes f)))"
        using st2 l1 by (auto simp: setItem_def split: option.splits)
      then show ?thesis
        using b s load_from_fast [OF _ n, of st' ev'] by simp
    qed
  qed
qed

lemma btoa_file_b: "btoa (fromCharCode [0x42 :: 8 word]) = ''Qg==''"
  by code_simp

lemma file_b_base64:
  "fileToBase64 ev file_b = (case fr_fault ev of Some e \<Rightarrow> Inl e | None \<Rightarrow> Inr ''Qg=='')"
proof -
  have "CHR '','' \<notin> set (file_type file_b)" by (simp add: file_b_def)
  then have "slice_from (readAsDataURL file_b) (indexOf (readAsDataURL file_b) (CHR '','') + 1)
      = btoa (fromCharCode (file_bytes file_b))"
    by (rule fileToBase64_text)
  also have "\<dots> = ''Qg==''" using btoa_file_b by (simp add: file_b_def)
  finally show ?thesis by (simp add: fileToBase64_def Let_def split: option.splits)
qed

lemma empty_file_base64: "fileToBase64 no_fault empty_file = Inr []"
proof -
  have "CHR '','' \<notin> set (file_type empty_file)" by (simp add: empty_file_def)
  then have "slice_from (readAsDataURL empty_file) (indexOf (readAsDataURL empty_file) (CHR '','') + 1)
      = btoa (fromCharCode (file_bytes empty_file))"
    by (rule fileToBase64_text)
  also have "\<dots> = []" by (simp add: empty_file_def btoa_def fromCharCode_def)
  finally show ?thesis by (simp add: fileToBase64_def Let_def no_fault_def)
qed

lemma no_fault_fields:
  "ls_fault no_fault k v = None" "fr_fault no_fault = None" "idb_put_fault no_fault n = None"
  "idb_get_fault no_fault = None" "blob_fault no_fault = False"
  by (simp_all add: no_fault_def)

lemma quota_env_fields:
  "ls_fault quota_env k v = Some quota_error" "fr_fault quota_env = None"
  "idb_put_fault quota_env n = None"
  by (simp_all add: quota_env_def no_fault_def)

lemma empty_file_fields:
  "file_name empty_file = ''empty.mdb''" "file_bytes empty_file = []"
  by (simp_all add: empty_file_def)

lemma file_b_fields:
  "file_name file_b = ''b.mdb''" "file_bytes file_b = [0x42]"
  "file_type file_b = ''application/x-msaccess''"
  by (simp_all add: file_b_def)

lemma save_file_b_plain:
  "saveFile no_fault empty_storage file_b
   = (Inr ''localStorage'',
      \<lparr> localStorage = [''mdb-base64'' \<mapsto> ''Qg=='', ''mdb-name'' \<mapsto> ''b.mdb''], idb_files = None \<rparr>)"
  by (simp add: saveFile_def file_b_base64 setItem_def no_fault_fields file_b_fields
      empty_storage_def)

lemma save_file_b_quota:
  "saveFile quota_env st file_b = (Inr ''indexedDB'', st\<lparr> idb_files := Some (file_b, ''b.mdb'') \<rparr>)"
  by (simp add: saveFile_def file_b_base64 setItem_def quota_env_fields file_b_fields
      saveFile_inner_def idbSaveFile_def)

lemma atob_QQ: "base64ToArrayBuffer ''QQ=='' = Inr [0x41]"
  by code_simp

lemma save_empty_quota:
  "saveFile quota_env st empty_file
   = (Inr ''indexedDB'', st\<lparr> idb_files := Some (empty_file, ''empty.mdb'') \<rparr>)"
proof -
  have "fileToBase64 quota_env empty_file = fileToBase64 no_fault empty_file"
    by (simp add: fileToBase64_def quota_env_fields no_fault_fields)
  then show ?thesis
    by (simp add: saveFile_def empty_file_base64 setItem_def quota_env_fields empty_file_fields
        saveFile_inner_def idbSaveFile_def)
qed

theorem save_restore_roundtrip_witness:
  "saveFile no_fault empty_storage file_b
     = (Inr ''localStorage'', snd (saveFile no_fault empty_storage file_b))
   \<and> file_bytes file_b \<noteq> [] \<and> CHR '','' \<notin> set (file_type file_b)
   \<and> (\<exists>nm. loadStoredFile no_fault (snd (saveFile no_fault empty_storage file_b))
              = Inr (Some (file_bytes file_b, nm)))
   \<and> saveFile quota_env empty_storage empty_file
     = (Inr ''indexedDB'', snd (saveFile quota_env empty_storage empty_file))
   \<and> file_bytes empty_file = [] \<and> CHR '','' \<notin> set (file_type empty_file)
   \<and> localStorage empty_storage ''mdb-base64'' = None
   \<and> idb_get_fault no_fault = None \<and> \<not> blob_fault no_fault
   \<and> (\<exists>nm. loadStoredFile no_fault (snd (saveFile quota_env empty_storage empty_file))
              = Inr (Some (file_bytes empty_file, nm)))"
proof -
  have a: "saveFile no_fault empty_storage file_b
     = (Inr ''localStorage'', snd (saveFile no_fault empty_storage file_b))"
    by (simp add: save_file_b_plain)
  have b: "saveFile quota_env empty_storage empty_file
     = (Inr ''indexedDB'', snd (saveFile quota_env empty_storage empty_file))"
    by (simp add: save_empty_quota)
  have c: "file_bytes file_b \<noteq> []" "CHR '','' \<notin> set (file_type file_b)"
    "file_bytes empty_file = []" "CHR '','' \<notin> set (file_type empty_file)"
    by (simp_all add: file_b_fields empty_file_def)
  have d: "localStorage empty_storage ''mdb-base64'' = None"
    "idb_get_fault no_fault = None" "\<not> blob_fault no_fault"
    by (simp_all add: empty_storage_def no_fault_def)
  show ?thesis
    using save_restore_roundtrip [OF a c(2), of no_fault]
      save_restore_roundtrip [OF b c(4), of no_fault]
      a b c d
    by simp
qed

theorem save_restore_counterexample:
  "fst (saveFile no_fault empty_storage empty_file) = Inr ''localStorage''
   \<and> loadStoredFile no_fault (snd (saveFile no_fault empty_storage empty_file)) = Inr None
   \<and> fst (saveFile quota_env stale_storage file_b) = Inr ''indexedDB''
   \<and> file_bytes file_b = [0x42]
   \<and> loadStoredFile no_fault (snd (saveFile quota_env stale_storage file_b))
       = Inr (Some ([0x41], Some ''a.mdb''))
   \<and> fst (saveFile quota_env empty_storage file_b) = Inr ''indexedDB''
   \<and> loadStoredFile idb_unreadable (snd (saveFile quota_env empty_storage file_b)) = Inr None"
proof -
  have "saveFile no_fault empty_storage empty_file
      = (Inr ''localStorage'',
         \<lparr> localStorage = [''mdb-base64'' \<mapsto> [], ''mdb-name'' \<mapsto> ''empty.mdb''], idb_files = None \<rparr>)"
    by (simp add: saveFile_def empty_file_base64 setItem_def no_fault_fields empty_storage_def
        empty_file_fields)
  then have a: "fst (saveFile no_fault empty_storage empty_file) = Inr ''localStorage''"
    and b: "loadStoredFile no_fault (snd (saveFile no_fault empty_storage empty_file)) = Inr None"
    by (simp_all add: loadStoredFile_def idbLoadFile_def no_fault_fields Let_def)
  have c: "fst (saveFile quota_env stale_storage file_b) = Inr ''indexedDB''"
    "fst (saveFile quota_env empty_storage file_b) = Inr ''indexedDB''"
    by (simp_all add: save_file_b_quota)
  have d: "loadStoredFile no_fault (snd (saveFile quota_env stale_storage file_b))
       = Inr (Some ([0x41], Some ''a.mdb''))"
    by (simp add: save_file_b_quota loadStoredFile_def stale_storage_def atob_QQ Let_def)
  have e: "file_bytes file_b = [0x42]" by (simp add: file_b_fields)
  have g: "loadStoredFile idb_unreadable (snd (saveFile quota_env empty_storage file_b)) = Inr None"
    by (simp add: save_file_b_quota loadStoredFile_def empty_storage_def idbLoadFile_def
        idb_unreadable_def Let_def)
  from a b c d e g show ?thesis by blast
qed

lemma loadFile_status:
  "v_status (loadFile fault parse vs (Some f) fs) \<noteq> ''Loaded (localStorage save failed)''"
  by (simp add: loadFile_def Let_def split: sum.splits prod.splits option.splits)

text \<open>
  Claim C2, amended. In the variant with the two stores, when the write into the fast
  store throws, on a quota error as on any other, save stores the file in the object
  store and reports \<open>'indexedDB'\<close>, provided the object store takes the write at the first
  attempt or at the retry; when both attempts throw, save fails with the error of the
  retry and stores nothing there. The variant with value following has no object store
  and reports no backend: \<open>saveFileToLocalStorage\<close> catches the error of a write, sets the
  status line, which \<open>loadFile\<close> then replaces, and tries no other store; when the write
  of the text throws the fast store stays as it was, and when only the write of the name
  throws the text stays stored.
\<close>

theorem saveFile_fallback:
  assumes "fileToBase64 ev f = Inr b64"
    and "ls_fault ev ''mdb-base64'' b64 = Some err
         \<or> (ls_fault ev ''mdb-base64'' b64 = None \<and> ls_fault ev ''mdb-name'' (file_name f) = Some err)"
  shows "(idb_put_fault ev 0 = None \<or> idb_put_fault ev 1 = None \<longrightarrow>
            fst (saveFile ev st f) = Inr ''indexedDB''
          \<and> idb_files (snd (saveFile ev st f)) = Some (f, file_name f))
       \<and> (\<forall>e0 e1. idb_put_fault ev 0 = Some e0 \<and> idb_put_fault ev 1 = Some e1 \<longrightarrow>
            fst (saveFile ev st f) = Inl e1
          \<and> idb_files (snd (saveFile ev st f)) = idb_files st)
       \<and> (\<forall>e. fault ''mdb-reader:lastFile'' encoded = Some e \<longrightarrow>
            saveFileToLocalStorage fault vs encoded n
              = vs\<lparr> v_status := ''Loaded (localStorage save failed)'' \<rparr>)
       \<and> (\<forall>e. fault ''mdb-reader:lastFile'' encoded = None
               \<and> fault ''mdb-reader:lastFileName'' n = Some e \<longrightarrow>
            saveFileToLocalStorage fault vs encoded n
              = vs\<lparr> v_localStorage := (v_localStorage vs)(''mdb-reader:lastFile'' \<mapsto> encoded),
                    v_status := ''Loaded (localStorage save failed)'' \<rparr>)
       \<and> v_status (loadFile fault parse vs (Some f) fs) \<noteq> ''Loaded (localStorage save failed)''"
proof -
  have inner: "\<And>e s. saveFile_inner ev e s f
      = (case idb_put_fault ev 0 of
           None \<Rightarrow> (Inr ''indexedDB'', s\<lparr> idb_files := Some (f, file_name f) \<rparr>)
         | Some e0 \<Rightarrow>
             (case idb_put_fault ev 1 of
                None \<Rightarrow> (Inr ''indexedDB'', s\<lparr> idb_files := Some (f, file_name f) \<rparr>)
              | Some e1 \<Rightarrow> (Inl e1, s)))"
    by (simp add: saveFile_inner_def saveFile_outer_def idbSaveFile_def split: option.splits)
  have two: "(idb_put_fault ev 0 = None \<or> idb_put_fault ev 1 = None \<longrightarrow>
            fst (saveFile ev st f) = Inr ''indexedDB''
          \<and> idb_files (snd (saveFile ev st f)) = Some (f, file_name f))
       \<and> (\<forall>e0 e1. idb_put_fault ev 0 = Some e0 \<and> idb_put_fault ev 1 = Some e1 \<longrightarrow>
            fst (saveFile ev st f) = Inl e1
          \<and> idb_files (snd (saveFile ev st f)) = idb_files st)"
    using assms(2)
  proof
    assume "ls_fault ev ''mdb-base64'' b64 = Some err"
    then have "saveFile ev st f = saveFile_inner ev err st f"
      using assms(1) by (simp add: saveFile_def setItem_def)
    then show ?thesis
      by (auto simp: inner split: option.splits)
  next
    assume a: "ls_fault ev ''mdb-base64'' b64 = None \<and> ls_fault ev ''mdb-name'' (file_name f) = Some err"
    then have "saveFile ev st f
        = saveFile_inner ev err (st\<lparr> localStorage := (localStorage st)(''mdb-base64'' \<mapsto> b64) \<rparr>) f"
      using assms(1) by (simp add: saveFile_def setItem_def)
    then show ?thesis
      by (auto simp: inner split: option.splits)
  qed
  have one: "\<forall>e. fault ''mdb-reader:lastFile'' encoded = Some e \<longrightarrow>
            saveFileToLocalStorage fault vs encoded n
              = vs\<lparr> v_status := ''Loaded (localStorage save failed)'' \<rparr>"
    by (simp add: saveFileToLocalStorage_def)
  have name: "\<forall>e. fault ''mdb-reader:lastFile'' encoded = None
               \<and> fault ''mdb-reader:lastFileName'' n = Some e \<longrightarrow>
            saveFileToLocalStorage fault vs encoded n
              = vs\<lparr> v_localStorage := (v_localStorage vs)(''mdb-reader:lastFile'' \<mapsto> encoded),
                    v_status := ''Loaded (localStorage save failed)'' \<rparr>"
    by (simp add: saveFileToLocalStorage_def Let_def)
  have status: "v_status (loadFile fault parse vs (Some f) fs) \<noteq> ''Loaded (localStorage save failed)''"
    by (rule loadFile_status)
  from two one name status show ?thesis by blast
qed

theorem saveFile_fallback_witness:
  "fileToBase64 quota_env file_b = Inr ''Qg==''
   \<and> isQuotaError quota_error
   \<and> ls_fault quota_env ''mdb-base64'' ''Qg=='' = Some quota_error
   \<and> idb_put_fault quota_env 0 = None
   \<and> fst (saveFile quota_env empty_storage file_b) = Inr ''indexedDB''
   \<and> idb_files (snd (saveFile quota_env empty_storage file_b)) = Some (file_b, file_name file_b)
   \<and> ls_fault quota_env ''mdb-reader:lastFile'' ''Qg=='' = Some quota_error
   \<and> saveFileToLocalStorage (ls_fault quota_env) example_vstate ''Qg=='' ''b.mdb''
       = example_vstate\<lparr> v_status := ''Loaded (localStorage save failed)'' \<rparr>
   \<and> name_fault ''mdb-reader:lastFile'' ''Qg=='' = None
   \<and> name_fault ''mdb-reader:lastFileName'' ''b.mdb'' = Some quota_error
   \<and> saveFileToLocalStorage name_fault example_vstate ''Qg=='' ''b.mdb''
       = example_vstate
           \<lparr> v_localStorage := (v_localStorage example_vstate)(''mdb-reader:lastFile'' \<mapsto> ''Qg==''),
             v_status := ''Loaded (localStorage save failed)'' \<rparr>"
proof -
  have a: "fileToBase64 quota_env file_b = Inr ''Qg==''"
    by (simp add: file_b_base64 quota_env_fields)
  have b: "ls_fault quota_env ''mdb-base64'' ''Qg=='' = Some quota_error
         \<or> (ls_fault quota_env ''mdb-base64'' ''Qg=='' = None
             \<and> ls_fault quota_env ''mdb-name'' (file_name file_b) = Some quota_error)"
    by (simp add: quota_env_fields)
  have c: "isQuotaError quota_error" "idb_put_fault quota_env 0 = None"
    "ls_fault quota_env ''mdb-base64'' ''Qg=='' = Some quota_error"
    "ls_fault quota_env ''mdb-reader:lastFile'' ''Qg=='' = Some quota_error"
    by (simp_all add: isQuotaError_def quota_error_def quota_env_fields)
  have d: "name_fault ''mdb-reader:lastFile'' ''Qg=='' = None"
    "name_fault ''mdb-reader:lastFileName'' ''b.mdb'' = Some quota_error"
    by (simp_all add: name_fault_def)
  show ?thesis
    using saveFile_fallback [OF a b, where fault = "ls_fault quota_env" and encoded = "''Qg==''"
        and st = empty_storage and vs = example_vstate and n = "''b.mdb''"]
      saveFile_fallback [OF a b, where fault = name_fault and encoded = "''Qg==''"
        and st = empty_storage and vs = example_vstate and n = "''b.mdb''"]
      a c d
    by simp
qed

theorem saveFile_fallback_counterexample:
  "isQuotaError quota_error
   \<and> ls_fault quota_env_idb_down ''mdb-base64'' ''Qg=='' = Some quota_error
   \<and> fst (saveFile quota_env_idb_down empty_storage file_b) = Inl idb_error
   \<and> snd (saveFile quota_env_idb_down empty_storage file_b) = empty_storage
   \<and> v_localStorage (saveFileToLocalStorage (ls_fault quota_env) example_vstate ''Qg=='' ''b.mdb'')
        ''mdb-reader:lastFile'' = None
   \<and> v_status (saveFileToLocalStorage (ls_fault quota_env) example_vstate ''Qg=='' ''b.mdb'')
       = ''Loaded (localStorage save failed)''"
proof -
  have f: "ls_fault quota_env_idb_down k v = Some quota_error"
    "fr_fault quota_env_idb_down = None" "idb_put_fault quota_env_idb_down n = Some idb_error"
    for k v n
    by (simp_all add: quota_env_idb_down_def quota_env_def no_fault_def)
  have a: "saveFile quota_env_idb_down empty_storage file_b = (Inl idb_error, empty_storage)"
    by (simp add: saveFile_def file_b_base64 setItem_def f saveFile_inner_def saveFile_outer_def
        idbSaveFile_def)
  have b: "isQuotaError quota_error"
    by (simp add: isQuotaError_def quota_error_def)
  have c: "v_localStorage (saveFileToLocalStorage (ls_fault quota_env) example_vstate ''Qg=='' ''b.mdb'')
        ''mdb-reader:lastFile'' = None"
    "v_status (saveFileToLocalStorage (ls_fault quota_env) example_vstate ''Qg=='' ''b.mdb'')
       = ''Loaded (localStorage save failed)''"
    by (simp_all add: saveFileToLocalStorage_def quota_env_fields example_vstate_def)
  from a b c f(1) show ?thesis by simp
qed

section \<open>Properties of the display fetch and of the drop boundary\<close>

lemma showTable_rows:
  assumes "a_tableMap st n = Some t" and "getData t None None = Inr rows"
  shows "a_rightRowData (fst (showTable proto st n)) = rows" and "snd (showTable proto st n) = None"
  using assms by (simp_all add: showTable_def Let_def)

lemma selectTable_honors:
  assumes "v_tableMap st n = Some t" and "honors t rows" and "getColumnNames t = Inr cols"
  shows "selectTable api st n
       = (highlightTableInList api
            (st\<lparr> v_currentTable := n, v_tableInfo := Some (columnCount t, length rows),
                  v_rowsGrid := Some (n, cols, take 5000 rows) \<rparr>) n, None)"
  using assms by (simp add: selectTable_def honors_def slice_rows_def Let_def)

lemma length_id_rows: "length (id_rows k) = k"
  by (simp add: id_rows_def)

text \<open>
  Claim C8, amended. In the variant with value following, selecting a table fetches at
  most the display ceiling of 5000 rows: on a handle that honours its options the rows
  handed to the grid are the first 5000 rows of the table, all of them when it has
  fewer, while the label and the catalog carry the true row count. In the variant with
  the two stores the display fetch has no limit and hands every row to the grid.
\<close>

theorem display_fetch_ceiling:
  assumes "honors t rows" and "getColumnNames t = Inr cols"
    and "v_tableMap st n = Some t" and "a_tableMap ast n = Some t"
  shows "snd (selectTable api st n) = None
       \<and> v_rowsGrid (fst (selectTable api st n)) = Some (n, cols, take 5000 rows)
       \<and> length (take 5000 rows) = min (length rows) 5000
       \<and> length (take 5000 rows) \<le> 5000
       \<and> v_tableInfo (fst (selectTable api st n)) = Some (columnCount t, length rows)
       \<and> (getTable r n = Inr t \<longrightarrow> entry_rowCount (entry_for r n) = int (length rows))
       \<and> snd (showTable proto ast n) = None
       \<and> a_rightRowData (fst (showTable proto ast n)) = rows"
proof -
  have g: "getData t None None = Inr rows"
    using assms(1) by (simp add: honors_def slice_rows_def)
  have rc: "rowCount t = Inr (length rows)"
    using assms(1) by (simp add: honors_def)
  have s: "selectTable api st n
       = (highlightTableInList api
            (st\<lparr> v_currentTable := n, v_tableInfo := Some (columnCount t, length rows),
                  v_rowsGrid := Some (n, cols, take 5000 rows) \<rparr>) n, None)"
    using assms(3,1,2) by (rule selectTable_honors)
  have e: "getTable r n = Inr t \<longrightarrow> entry_rowCount (entry_for r n) = int (length rows)"
    using rc by (simp add: entry_for_def)
  show ?thesis
    using showTable_rows [OF assms(4) g] e
    by (simp add: s highlightTableInList_def)
qed

theorem display_fetch_ceiling_witness:
  "honors orders_table (id_rows 50000)
   \<and> length (id_rows 50000) = 50000
   \<and> v_rowsGrid (fst (selectTable True orders_vstate ''Orders''))
       = Some (''Orders'', [''Id''], take 5000 (id_rows 50000))
   \<and> length (take 5000 (id_rows 50000)) = 5000
   \<and> v_tableInfo (fst (selectTable True orders_vstate ''Orders'')) = Some (1, 50000)"
proof -
  have h: "honors orders_table (id_rows 50000)"
    unfolding orders_table_def by (rule honors_table_of)
  have c: "getColumnNames orders_table = Inr [''Id'']" "columnCount orders_table = 1"
    by (simp_all add: orders_table_def table_of_def)
  have m: "v_tableMap orders_vstate ''Orders'' = Some orders_table"
    "a_tableMap orders_app ''Orders'' = Some orders_table"
    by (simp_all add: orders_vstate_def orders_app_def)
  show ?thesis
    using display_fetch_ceiling [OF h c(1) m, of True] h c(2)
    by (simp add: length_id_rows)
qed

theorem display_fetch_counterexample:
  "a_tableMap orders_app ''Orders'' = Some orders_table
   \<and> rowCount orders_table = Inr 50000
   \<and> length (a_rightRowData (fst (showTable plain_proto orders_app ''Orders''))) = 50000"
proof -
  have m: "a_tableMap orders_app ''Orders'' = Some orders_table"
    by (simp add: orders_app_def)
  have g: "getData orders_table None None = Inr (id_rows 50000)"
    by (simp add: orders_table_def table_of_def slice_rows_def)
  have r: "rowCount orders_table = Inr 50000"
    by (simp add: orders_table_def table_of_def length_id_rows)
  show ?thesis
    using showTable_rows(1) [OF m g] m r by (simp add: length_id_rows)
qed

lemma endsWith_iff: "endsWith s suf \<longleftrightarrow> (\<exists>p. s = p @ suf)"
proof
  assume "endsWith s suf"
  then have "s = take (length s - length suf) s @ suf"
    by (metis append_take_drop_id endsWith_def)
  then show "\<exists>p. s = p @ suf" by blast
next
  assume "\<exists>p. s = p @ suf"
  then show "endsWith s suf" by (auto simp: endsWith_def)
qed

lemma isAllowedFileName_iff:
  "isAllowedFileName n
   \<longleftrightarrow> (\<exists>p. toLowerCase n = p @ ''.mdb'' \<or> toLowerCase n = p @ ''.accdb'')"
proof (cases "n = []")
  case True
  then show ?thesis by (simp add: isAllowedFileName_def toLowerCase_def)
next
  case False
  then show ?thesis
    by (simp add: isAllowedFileName_def Let_def endsWith_iff ex_disj_distrib)
qed

text \<open>
  Claim C9, amended. In the variant with the two stores a dropped file is accepted, and
  handled as a chosen file is, only when its name in lower case ends with \<open>.mdb\<close> or
  \<open>.accdb\<close>; any other dropped file only gets the class of the invalid-drop indicator,
  which the timer takes away again: the reader, the stores, the catalog, the handles,
  the status and the rows stay as they were.
\<close>

theorem drop_boundary:
  "(isAllowedFileName n
      \<longleftrightarrow> (\<exists>p. toLowerCase n = p @ ''.mdb'' \<or> toLowerCase n = p @ ''.accdb''))
   \<and> (isAllowedFileName (file_name f) \<longrightarrow>
         drop_a proto ev parse st (f # fs)
           = handleFile proto ev parse
               (st\<lparr> a_toolbar := a_toolbar st - {''drag-invalid'', ''drag-valid''} \<rparr>) f)
   \<and> (\<not> isAllowedFileName (file_name f) \<longrightarrow>
         drop_a proto ev parse st (f # fs)
           = st\<lparr> a_toolbar :=
                   insert ''drag-invalid'' (a_toolbar st - {''drag-invalid'', ''drag-valid''}) \<rparr>
       \<and> drop_timer (drop_a proto ev parse st (f # fs))
           = st\<lparr> a_toolbar := a_toolbar st - {''drag-invalid'', ''drag-valid''} \<rparr>
       \<and> a_reader (drop_a proto ev parse st (f # fs)) = a_reader st
       \<and> a_store (drop_a proto ev parse st (f # fs)) = a_store st
       \<and> a_leftRowData (drop_a proto ev parse st (f # fs)) = a_leftRowData st
       \<and> a_tableMap (drop_a proto ev parse st (f # fs)) = a_tableMap st
       \<and> a_status (drop_a proto ev parse st (f # fs)) = a_status st
       \<and> a_rightRowData (drop_a proto ev parse st (f # fs)) = a_rightRowData st)"
proof -
  have a: "isAllowedFileName n
      \<longleftrightarrow> (\<exists>p. toLowerCase n = p @ ''.mdb'' \<or> toLowerCase n = p @ ''.accdb'')"
    by (rule isAllowedFileName_iff)
  have b: "isAllowedFileName (file_name f) \<longrightarrow>
         drop_a proto ev parse st (f # fs)
           = handleFile proto ev parse
               (st\<lparr> a_toolbar := a_toolbar st - {''drag-invalid'', ''drag-valid''} \<rparr>) f"
    by (simp add: drop_a_def Let_def)
  have c: "\<not> isAllowedFileName (file_name f) \<longrightarrow>
         drop_a proto ev parse st (f # fs)
           = st\<lparr> a_toolbar :=
                   insert ''drag-invalid'' (a_toolbar st - {''drag-invalid'', ''drag-valid''}) \<rparr>"
    by (simp add: drop_a_def Let_def)
  have d: "\<not> isAllowedFileName (file_name f) \<longrightarrow>
         drop_timer (drop_a proto ev parse st (f # fs))
           = st\<lparr> a_toolbar := a_toolbar st - {''drag-invalid'', ''drag-valid''} \<rparr>"
  proof
    assume "\<not> isAllowedFileName (file_name f)"
    moreover have "insert ''drag-invalid'' (a_toolbar st - {''drag-invalid'', ''drag-valid''})
          - {''drag-invalid''} = a_toolbar st - {''drag-invalid'', ''drag-valid''}"
      by blast
    ultimately show "drop_timer (drop_a proto ev parse st (f # fs))
           = st\<lparr> a_toolbar := a_toolbar st - {''drag-invalid'', ''drag-valid''} \<rparr>"
      using c by (simp add: drop_timer_def)
  qed
  from a b c d show ?thesis by simp
qed

theorem drop_boundary_witness:
  "isAllowedFileName (file_name upper_file)
   \<and> toLowerCase (file_name upper_file) = ''sales'' @ ''.accdb''
   \<and> drop_a plain_proto no_fault (\<lambda>b. Inr example_reader) example_app [upper_file]
       = handleFile plain_proto no_fault (\<lambda>b. Inr example_reader)
           (example_app \<lparr> a_toolbar := a_toolbar example_app - {''drag-invalid'', ''drag-valid''} \<rparr>)
           upper_file
   \<and> \<not> isAllowedFileName (file_name notes_file)
   \<and> a_reader (drop_a plain_proto no_fault (\<lambda>b. Inr example_reader) example_app [notes_file])
       = a_reader example_app
   \<and> a_store (drop_a plain_proto no_fault (\<lambda>b. Inr example_reader) example_app [notes_file]) = empty_storage
   \<and> a_toolbar (drop_a plain_proto no_fault (\<lambda>b. Inr example_reader) example_app [notes_file])
       = {''drag-invalid''}"
proof -
  have l: "toLowerCase (file_name upper_file) = ''sales'' @ ''.accdb''"
    by code_simp
  have u: "isAllowedFileName (file_name upper_file)"
    by code_simp
  have n: "\<not> isAllowedFileName (file_name notes_file)"
    by code_simp
  have e: "a_store example_app = empty_storage" "a_toolbar example_app = {}"
    by (simp_all add: example_app_def)
  show ?thesis
    using drop_boundary [of "file_name upper_file" upper_file plain_proto no_fault "\<lambda>b. Inr example_reader"
        example_app "[]"]
      drop_boundary [of "file_name notes_file" notes_file plain_proto no_fault "\<lambda>b. Inr example_reader"
        example_app "[]"]
      l u n e
    by simp
qed

theorem drop_boundary_counterexample:
  "\<not> isAllowedFileName (file_name notes_file)
   \<and> v_reader blank_vstate = None
   \<and> v_localStorage blank_vstate ''mdb-reader:lastFileName'' = None
   \<and> v_tables blank_vstate = []
   \<and> v_localStorage (drop_v (\<lambda>k v. None) (\<lambda>b. Inr example_reader) blank_vstate [notes_file])
        ''mdb-reader:lastFileName'' = Some ''notes.txt''
   \<and> map entry_name (v_tables (drop_v (\<lambda>k v. None) (\<lambda>b. Inr example_reader) blank_vstate [notes_file]))
       = [''A'', ''B'', ''C'']
   \<and> v_status (drop_v (\<lambda>k v. None) (\<lambda>b. Inr example_reader) blank_vstate [notes_file]) = ''Loaded''"
proof -
  have n: "\<not> isAllowedFileName (file_name notes_file)"
    by code_simp
  have b: "v_reader blank_vstate = None"
    "v_localStorage blank_vstate ''mdb-reader:lastFileName'' = None" "v_tables blank_vstate = []"
    by (simp_all add: blank_vstate_def example_vstate_def)
  have g: "getTableNames example_reader = Inr [''A'', ''B'', ''C'']"
    by (simp add: example_reader_def)
  let ?st2 = "saveFileToLocalStorage (\<lambda>k v. None)
                (blank_vstate\<lparr> v_status := ''Loading file...'', v_reader := Some example_reader \<rparr>)
                (arrayBufferToBase64 (file_bytes notes_file)) (file_name notes_file)"
  have r: "v_reader ?st2 = Some example_reader"
    and s: "v_localStorage ?st2 ''mdb-reader:lastFileName'' = Some ''notes.txt''"
    by (simp_all add: saveFileToLocalStorage_def Let_def notes_file_def)
  have t: "v_tables (fst (buildTablesList_v ?st2)) = map (entry_for example_reader) [''A'', ''B'', ''C'']"
    and e: "snd (buildTablesList_v ?st2) = None"
    using buildTablesList_v_tables [OF r g] by simp_all
  have k: "v_localStorage (fst (buildTablesList_v ?st2)) = v_localStorage ?st2"
    using r g by (simp add: buildTablesList_v_def case_prod_beta Let_def)
  obtain st3 where st3: "buildTablesList_v ?st2 = (st3, None)"
    using e by (cases "buildTablesList_v ?st2") simp
  have d: "drop_v (\<lambda>k v. None) (\<lambda>b. Inr example_reader) blank_vstate [notes_file]
         = st3\<lparr> v_status := ''Loaded'' \<rparr>"
    using st3 by (simp add: drop_v_def loadFile_def Let_def)
  have "v_tables st3 = map (entry_for example_reader) [''A'', ''B'', ''C'']"
    and "v_localStorage st3 = v_localStorage ?st2"
    using t k st3 by simp_all
  then show ?thesis
    using n b s by (simp add: d entry_for_def)
qed

end
